theory Spec2Isabelle
  imports Main
begin

section \<open>JavaScript values\<close>

text \<open>
  The helpers of \<^verbatim>\<open>packages/varlet-ui/src/utils/components.ts\<close> work on untyped JavaScript
  values. Primitive values are modelled by \<open>prim\<close>. A number is an \<open>int\<close>: the model covers
  the integer-valued numbers whose string form is their decimal expansion; fractions,
  \<^verbatim>\<open>NaN\<close>, infinities and the exponent notation of large numbers are outside the model.
  A string is a list of characters.
\<close>

datatype prim = Undefined | Null | Bool bool | Num int | Str string

text \<open>Decimal digits of a natural number, most significant first.\<close>

fun digits :: "nat \<Rightarrow> string" where
  "digits n = (if n < 10 then [''0123456789'' ! n]
               else digits (n div 10) @ [''0123456789'' ! (n mod 10)])"

declare digits.simps [simp del]

definition num_to_string :: "int \<Rightarrow> string" where
  "num_to_string i = (if i < 0 then CHR ''-'' # digits (nat (- i)) else digits (nat i))"

text \<open>\<^verbatim>\<open>String(x)\<close>, which is also what a template literal applies to a primitive.\<close>

fun String :: "prim \<Rightarrow> string" where
  "String Undefined = ''undefined''"
| "String Null = ''null''"
| "String (Bool b) = (if b then ''true'' else ''false'')"
| "String (Num i) = num_to_string i"
| "String (Str s) = s"

section \<open>formatElevation\<close>

text \<open>
  \<^verbatim>\<open>
  export function formatElevation(elevation: number | boolean | string, defaultLevel?: number) {
    if (elevation === false) { return null }
    if (elevation === true && defaultLevel) { elevation = defaultLevel }
    return `var-elevation--${elevation}`
  }
  \<close>
  The optional \<open>defaultLevel\<close> is an \<open>int option\<close> (\<open>None\<close> when it is not supplied); a
  number is truthy when it is not zero. The result \<open>None\<close> is JavaScript's \<open>null\<close>.
\<close>

definition formatElevation :: "prim \<Rightarrow> int option \<Rightarrow> string option" where
  "formatElevation elevation defaultLevel =
     (if elevation = Bool False then None
      else
        let elevation' =
              (case defaultLevel of
                 Some d \<Rightarrow> if elevation = Bool True \<and> d \<noteq> 0 then Num d else elevation
               | None \<Rightarrow> elevation)
        in Some (''var-elevation--'' @ String elevation'))"

section \<open>flatFragment\<close>

text \<open>
  A virtual node, as far as \<open>flatFragment\<close> reads it: its \<open>type\<close> (the framework's
  \<open>Comment\<close> and \<open>Fragment\<close> symbols, or anything else) and its \<open>children\<close>, which are an
  array of nodes, a string, or \<open>null\<close>.
\<close>

datatype vtype = Comment | Fragment | Text | Element string

datatype 'a vchildren = ChildArray "'a list" | ChildString string | ChildNull

datatype vnode = VNode (type: vtype) (children: "vnode vchildren")

definition isArray :: "'a vchildren \<Rightarrow> bool" where
  "isArray c = (case c of ChildArray _ \<Rightarrow> True | _ \<Rightarrow> False)"

text \<open>The elements of a children array (only read under the guard \<open>isArray\<close>).\<close>

definition elements :: "'a vchildren \<Rightarrow> 'a list" where
  "elements c = (case c of ChildArray xs \<Rightarrow> xs | _ \<Rightarrow> [])"

text \<open>\<^verbatim>\<open>result.push(item)\<close>\<close>

definition push :: "'a \<Rightarrow> 'a list \<Rightarrow> 'a list" where
  "push item result = result @ [item]"

text \<open>
  \<^verbatim>\<open>
  export function flatFragment(vNodes: any) {
    const result: VNode[] = []
    vNodes.forEach((vNode: any) => {
      if (vNode.type === Comment) { return }
      if (vNode.type === Fragment && isArray(vNode.children)) {
        vNode.children.forEach((item: VNode) => { result.push(item) })
        return
      }
      result.push(vNode)
    })
    return result
  }
  \<close>
  Each \<open>forEach\<close> is a \<open>fold\<close> that threads \<open>result\<close>.
\<close>

definition flatFragment_body :: "vnode \<Rightarrow> vnode list \<Rightarrow> vnode list" where
  "flatFragment_body vNode result =
     (if type vNode = Comment then result
      else if type vNode = Fragment \<and> isArray (children vNode)
        then fold push (elements (children vNode)) result
      else push vNode result)"

definition flatFragment :: "vnode list \<Rightarrow> vnode list" where
  "flatFragment vNodes = fold flatFragment_body vNodes []"

section \<open>createNamespace\<close>

text \<open>\<^verbatim>\<open>s.startsWith(p)\<close>\<close>

definition startsWith :: "string \<Rightarrow> string \<Rightarrow> bool" where
  "startsWith s p = (take (length p) s = p)"

text \<open>
  \<^verbatim>\<open>s.replace(pattern, replacement)\<close> for a string pattern: the first occurrence of the
  pattern is replaced. The replacement used by the source, \<open>var\<close>, holds no \<open>$\<close>, so
  none of the special replacement patterns applies.
\<close>

fun js_replace :: "string \<Rightarrow> string \<Rightarrow> string \<Rightarrow> string" where
  "js_replace [] pat rep = (if pat = [] then rep else [])"
| "js_replace (c # cs) pat rep =
     (if startsWith (c # cs) pat then rep @ drop (length pat) (c # cs)
      else c # js_replace cs pat rep)"

definition namespace :: string where
  "namespace = ''var''"

definition componentName :: "string \<Rightarrow> string" where
  "componentName name = namespace @ ''-'' @ name"

text \<open>
  \<^verbatim>\<open>
  const createBEM = (suffix?: S) => {
    if (!suffix) { return componentName }
    if (suffix[0] === '$') { return suffix.replace('$', namespace) }
    return suffix.startsWith('--') ? `${componentName}${suffix}` : `${componentName}__${suffix}`
  }
  \<close>
  The optional suffix is a \<open>string option\<close>; \<open>!suffix\<close> holds for \<open>undefined\<close> and for
  the empty string.
\<close>

definition createBEM :: "string \<Rightarrow> string option \<Rightarrow> string" where
  "createBEM name suffix =
     (case suffix of
        None \<Rightarrow> componentName name
      | Some s \<Rightarrow>
          if s = [] then componentName name
          else if hd s = CHR ''$'' then js_replace s ''$'' namespace
          else if startsWith s ''--'' then componentName name @ s
          else componentName name @ ''__'' @ s)"

section \<open>Promises\<close>

text \<open>
  A thrown value or a rejection reason: the \<open>TypeError\<close> the runtime raises when a
  value that is not a function is called, or any value thrown by user code.
\<close>

datatype exn = TypeError | Thrown prim

text \<open>
  What becomes of a promise: it is fulfilled with a value, rejected with a reason, or it
  stays pending for ever.
\<close>

datatype settlement = Fulfils prim | Rejects exn | Never

text \<open>
  What a caller that awaits a promise observes: a value, an exception, or no return.
\<close>

datatype 'a outcome = Resolved 'a | Rejected exn | Pending

text \<open>
  The runtime's \<^verbatim>\<open>Promise.all\<close>. It keeps an array of result slots, a count of the
  elements still awaited and the state of the promise it returned. The input promises
  settle one after the other in an order chosen by the scheduler: \<open>order\<close> lists their
  indices in completion order. A fulfilment stores the value in the slot of that index
  and, when it was the last one awaited, fulfils the result with the slots; a rejection
  rejects the result; a result that is settled stays as it is.
\<close>

record all_state =
  slots :: "prim list"
  remaining :: nat
  result :: "(exn + prim list) option"

definition all_init :: "nat \<Rightarrow> all_state" where
  "all_init n =
     \<lparr>slots = replicate n Undefined, remaining = n,
      result = (if n = 0 then Some (Inr []) else None)\<rparr>"

definition all_settle :: "settlement list \<Rightarrow> nat \<Rightarrow> all_state \<Rightarrow> all_state" where
  "all_settle promises i st =
     (if i < length promises then
        (case promises ! i of
           Fulfils v \<Rightarrow>
             let vals = (slots st)[i := v]; rem = remaining st - 1
             in st\<lparr>slots := vals, remaining := rem,
                   result := (if result st = None \<and> rem = 0 then Some (Inr vals)
                              else result st)\<rparr>
         | Rejects e \<Rightarrow>
             st\<lparr>result := (if result st = None then Some (Inl e) else result st)\<rparr>
         | Never \<Rightarrow> st)
      else st)"

definition promise_all :: "settlement list \<Rightarrow> nat list \<Rightarrow> (exn + prim list) option" where
  "promise_all promises order =
     result (fold (all_settle promises) order (all_init (length promises)))"

section \<open>useValidation\<close>

text \<open>
  A validation rule is a function of \<open>(value, apis)\<close>. Calling it throws, returns a plain
  value, or returns a promise. A member of the rules array that is not a function is a
  rule that throws \<open>TypeError\<close>.
\<close>

datatype rule_result = Throws exn | Returns prim | Promise settlement

type_synonym ('v, 'a) rule = "'v \<Rightarrow> 'a \<Rightarrow> rule_result"

text \<open>The argument \<open>rules\<close> has type \<open>any\<close>: it is an array of rules or something else.\<close>

datatype ('v, 'a) rules = NotArray | RuleArray "('v, 'a) rule list"

text \<open>
  The state of one \<open>useValidation()\<close>: the cell \<open>errorMessage\<close>, and the number of rule
  calls made so far.
\<close>

record validation =
  errorMessage :: string
  invoked :: nat

definition useValidation :: validation where
  "useValidation = \<lparr>errorMessage = [], invoked = 0\<rparr>"

text \<open>
  \<^verbatim>\<open>rules.map((rule) => rule(value, apis))\<close>: the rules are called in array order; the
  first one that throws ends the \<open>map\<close>. A plain value is awaited like a promise
  fulfilled with it.
\<close>

fun map_rules ::
  "('v, 'a) rule list \<Rightarrow> 'v \<Rightarrow> 'a \<Rightarrow> validation \<Rightarrow> (exn + settlement list) \<times> validation" where
  "map_rules [] value apis s = (Inr [], s)"
| "map_rules (rule # rest) value apis s =
     (let s1 = s\<lparr>invoked := invoked s + 1\<rparr> in
      case rule value apis of
        Throws e \<Rightarrow> (Inl e, s1)
      | Returns v \<Rightarrow>
          (case map_rules rest value apis s1 of
             (Inl e, s2) \<Rightarrow> (Inl e, s2)
           | (Inr ps, s2) \<Rightarrow> (Inr (Fulfils v # ps), s2))
      | Promise p \<Rightarrow>
          (case map_rules rest value apis s1 of
             (Inl e, s2) \<Rightarrow> (Inl e, s2)
           | (Inr ps, s2) \<Rightarrow> (Inr (p # ps), s2)))"

text \<open>
  \<^verbatim>\<open>
  resArr.some((res) => {
    if (res !== true) { errorMessage.value = String(res); return true }
    return false
  })
  \<close>
\<close>

fun some_failed :: "prim list \<Rightarrow> validation \<Rightarrow> bool \<times> validation" where
  "some_failed [] s = (False, s)"
| "some_failed (res # rest) s =
     (if res \<noteq> Bool True then (True, s\<lparr>errorMessage := String res\<rparr>)
      else some_failed rest s)"

text \<open>
  \<^verbatim>\<open>
  const validate = async (rules: any, value: any, apis?: any): Promise<boolean> => {
    if (!isArray(rules) || !rules.length) { return true }
    const resArr = await Promise.all(rules.map((rule) => rule(value, apis)))
    return !resArr.some(...)
  }
  \<close>
  The result pairs what the caller that awaits \<open>validate\<close> observes with the state
  after the run. \<open>order\<close> is the completion order of the rule promises.
\<close>

definition validate ::
  "('v, 'a) rules \<Rightarrow> 'v \<Rightarrow> 'a \<Rightarrow> nat list \<Rightarrow> validation \<Rightarrow> bool outcome \<times> validation" where
  "validate rules value apis order s =
     (case rules of
        NotArray \<Rightarrow> (Resolved True, s)
      | RuleArray rs \<Rightarrow>
          if rs = [] then (Resolved True, s)
          else
            (case map_rules rs value apis s of
               (Inl e, s1) \<Rightarrow> (Rejected e, s1)
             | (Inr promises, s1) \<Rightarrow>
                 (case promise_all promises order of
                    None \<Rightarrow> (Pending, s1)
                  | Some (Inl e) \<Rightarrow> (Rejected e, s1)
                  | Some (Inr resArr) \<Rightarrow>
                      (case some_failed resArr s1 of
                         (found, s2) \<Rightarrow> (Resolved (\<not> found), s2)))))"

text \<open>\<^verbatim>\<open>const resetValidation = () => { errorMessage.value = '' }\<close>\<close>

definition resetValidation :: "validation \<Rightarrow> validation" where
  "resetValidation s = s\<lparr>errorMessage := []\<rparr>"

text \<open>
  \<^verbatim>\<open>
  const validateWithTrigger = async (validateTrigger, trigger, rules, value, apis?) => {
    if (validateTrigger.includes(trigger)) {
      ;(await validate(rules, value, apis)) && (errorMessage.value = '')
    }
  }
  \<close>
\<close>

definition validateWithTrigger ::
  "'t list \<Rightarrow> 't \<Rightarrow> ('v, 'a) rules \<Rightarrow> 'v \<Rightarrow> 'a \<Rightarrow> nat list \<Rightarrow> validation
     \<Rightarrow> unit outcome \<times> validation" where
  "validateWithTrigger validateTrigger trigger rules value apis order s =
     (if trigger \<in> set validateTrigger then
        (case validate rules value apis order s of
           (Resolved ok, s1) \<Rightarrow>
             (Resolved (), if ok then s1\<lparr>errorMessage := []\<rparr> else s1)
         | (Rejected e, s1) \<Rightarrow> (Rejected e, s1)
         | (Pending, s1) \<Rightarrow> (Pending, s1))
      else (Resolved (), s))"

text \<open>
  Notions used to state the properties of \<open>validate\<close>: the value a caller that awaits
  the result of a rule gets (\<open>awaited\<close>), the promise \<^verbatim>\<open>Promise.all\<close> receives for a rule
  that did not throw (\<open>promised\<close>), a promise that rejects, a rule that throws or
  rejects; and the invariants of \<^verbatim>\<open>Promise.all\<close> used in the proofs.
\<close>

definition awaited :: "rule_result \<Rightarrow> prim option" where
  "awaited r = (case r of Returns v \<Rightarrow> Some v | Promise (Fulfils v) \<Rightarrow> Some v | _ \<Rightarrow> None)"

definition promised :: "rule_result \<Rightarrow> settlement option" where
  "promised r = (case r of Throws e \<Rightarrow> None | Returns v \<Rightarrow> Some (Fulfils v) | Promise p \<Rightarrow> Some p)"

definition is_rejected :: "settlement \<Rightarrow> bool" where
  "is_rejected p = (case p of Rejects e \<Rightarrow> True | _ \<Rightarrow> False)"

definition fails :: "rule_result \<Rightarrow> bool" where
  "fails r = (case r of Throws e \<Rightarrow> True | Promise (Rejects e) \<Rightarrow> True | _ \<Rightarrow> False)"

definition all_inv :: "prim list \<Rightarrow> nat set \<Rightarrow> all_state \<Rightarrow> bool" where
  "all_inv vs D st \<longleftrightarrow>
     D \<subseteq> {0..<length vs} \<and> length (slots st) = length vs \<and>
     (\<forall>i\<in>D. slots st ! i = vs ! i) \<and>
     remaining st = length vs - card D \<and>
     result st = (if card D = length vs then Some (Inr (slots st)) else None)"

definition pending_inv :: "nat \<Rightarrow> nat \<Rightarrow> all_state \<Rightarrow> bool" where
  "pending_inv n k st \<longleftrightarrow> n \<le> remaining st + k \<and> (0 < remaining st \<longrightarrow> result st = None)"

section \<open>call and useVModel\<close>

text \<open>
  The values a property bag holds: a primitive, a function, or an array. A function is
  known by an identifier; what it does when called is given by a \<open>behaviour\<close>, and every
  call is recorded as an \<open>invocation\<close> (the function and its arguments). An array is an
  object, the only kind of object in the model: it has an address, which is its
  identity, and elements. \<open>Reactive a xs\<close> is the framework's reactive proxy of the
  array at address \<open>a\<close>: another object, which reads as the same array.
\<close>

datatype jsval = Prim prim | Fun nat | Arr nat "jsval list" | Reactive nat "jsval list"

type_synonym invocation = "nat \<times> jsval list"

type_synonym behaviour = "nat \<Rightarrow> jsval list \<Rightarrow> exn + jsval"

fun truthy :: "jsval \<Rightarrow> bool" where
  "truthy (Prim Undefined) = False"
| "truthy (Prim Null) = False"
| "truthy (Prim (Bool b)) = b"
| "truthy (Prim (Num i)) = (i \<noteq> 0)"
| "truthy (Prim (Str s)) = (s \<noteq> [])"
| "truthy (Fun f) = True"
| "truthy (Arr a xs) = True"
| "truthy (Reactive a xs) = True"

text \<open>\<^verbatim>\<open>x != null\<close> is false for \<open>null\<close> and for \<open>undefined\<close>.\<close>

definition nullish :: "jsval \<Rightarrow> bool" where
  "nullish v = (v = Prim Undefined \<or> v = Prim Null)"

text \<open>
  \<^verbatim>\<open>Object.is\<close>, by which the framework decides whether a value has changed: primitives
  are compared by value, functions and arrays by identity; an array and its reactive
  proxy are two objects.
\<close>

fun Object_is :: "jsval \<Rightarrow> jsval \<Rightarrow> bool" where
  "Object_is (Prim a) (Prim b) = (a = b)"
| "Object_is (Fun f) (Fun g) = (f = g)"
| "Object_is (Arr a xs) (Arr b ys) = (a = b)"
| "Object_is (Reactive a xs) (Reactive b ys) = (a = b)"
| "Object_is _ _ = False"

definition hasChanged :: "jsval \<Rightarrow> jsval \<Rightarrow> bool" where
  "hasChanged newValue oldValue = (\<not> Object_is newValue oldValue)"

text \<open>
  The framework's \<open>toRaw\<close> and \<open>toReactive\<close>: the object behind a reactive proxy, and the
  reactive proxy of an object; a value that is not an object is left as it is.
\<close>

fun toRaw :: "jsval \<Rightarrow> jsval" where
  "toRaw (Reactive a xs) = Arr a xs"
| "toRaw v = v"

fun toReactive :: "jsval \<Rightarrow> jsval" where
  "toReactive (Arr a xs) = Reactive a xs"
| "toReactive v = v"

text \<open>
  \<^verbatim>\<open>fn.map((f) => f(...args))\<close>: the members are called in array order. A member that
  throws, or that is not a function, ends the \<open>map\<close> with an exception.
\<close>

fun map_call ::
  "behaviour \<Rightarrow> jsval list \<Rightarrow> jsval list \<Rightarrow> invocation list
     \<Rightarrow> (exn + jsval list) \<times> invocation list" where
  "map_call beh [] args calls = (Inr [], calls)"
| "map_call beh (f # fs) args calls =
     (case f of
        Fun g \<Rightarrow>
          (case beh g args of
             Inl e \<Rightarrow> (Inl e, calls @ [(g, args)])
           | Inr r \<Rightarrow>
               (case map_call beh fs args (calls @ [(g, args)]) of
                  (Inl e, calls') \<Rightarrow> (Inl e, calls')
                | (Inr rs, calls') \<Rightarrow> (Inr (r # rs), calls')))
      | _ \<Rightarrow> (Inl TypeError, calls))"

text \<open>
  \<^verbatim>\<open>
  export function call(fn, ...args) {
    if (isArray(fn)) { return fn.map((f) => f(...args)) }
    if (fn) { return fn(...args) }
  }
  \<close>
  The result is the array of results, the single result, or \<open>undefined\<close>. The reactive
  proxy of an array is an array to \<open>isArray\<close>, and its function members read as
  themselves.
\<close>

datatype returned = Results "jsval list" | Result jsval | Nothing

definition call ::
  "behaviour \<Rightarrow> jsval \<Rightarrow> jsval list \<Rightarrow> invocation list
     \<Rightarrow> (exn + returned) \<times> invocation list" where
  "call beh fn args calls =
     (case fn of
        Arr a fs \<Rightarrow>
          (case map_call beh fs args calls of
             (Inl e, calls') \<Rightarrow> (Inl e, calls')
           | (Inr rs, calls') \<Rightarrow> (Inr (Results rs), calls'))
      | Reactive a fs \<Rightarrow>
          (case map_call beh fs args calls of
             (Inl e, calls') \<Rightarrow> (Inl e, calls')
           | (Inr rs, calls') \<Rightarrow> (Inr (Results rs), calls'))
      | Fun g \<Rightarrow>
          (case beh g args of
             Inl e \<Rightarrow> (Inl e, calls @ [(g, args)])
           | Inr r \<Rightarrow> (Inr (Result r), calls @ [(g, args)]))
      | Prim p \<Rightarrow>
          if truthy (Prim p) then (Inl TypeError, calls) else (Inr Nothing, calls))"

text \<open>
  \<^verbatim>\<open>
  export interface UseVModelOptions<P, K extends keyof P> {
    passive?: boolean
    eventName?: string
    defaultValue?: P[K]
    emit?: (event: string, value: P[K]) => void
  }
  \<close>
  An absent \<open>defaultValue\<close> is \<open>undefined\<close>.
\<close>

record options =
  "passive" :: "bool option"
  eventName :: "string option"
  defaultValue :: jsval
  emit :: "nat option"

text \<open>
  The framework's \<open>ref\<close>: it keeps the value it was given, with a reactive proxy taken
  off (\<open>rawValue\<close>), and the value it reads as, the reactive proxy of an object or the
  value itself (\<open>cell\<close>). With the cell of \<open>useVModel\<close> come its two watchers; each
  remembers the value its source had when it ran last.
\<close>

record proxy_ref =
  rawValue :: jsval
  cell :: jsval
  seen_source :: jsval
  seen_cell :: jsval

text \<open>
  The two watchers of \<open>useVModel\<close>, as jobs of the framework's scheduler: the first one
  carries the source property into the cell, the second one notifies of the cell's
  value.
\<close>

datatype job = SyncJob | NotifyJob

text \<open>
  The state \<open>useVModel\<close> works on: the property bag (a property that is absent reads as
  \<open>undefined\<close>), the local cell \<open>proxy\<close> when one was created, the scheduler's queue of
  watcher jobs that wait for the next flush, and the record of the calls made.
\<close>

record vmodel =
  props :: "string \<Rightarrow> jsval"
  proxy :: "proxy_ref option"
  queue :: "job list"
  calls :: "invocation list"

text \<open>\<^verbatim>\<open>const { passive = true, eventName, defaultValue, emit } = options\<close>\<close>

definition is_passive :: "options \<Rightarrow> bool" where
  "is_passive options = (case passive options of None \<Rightarrow> True | Some b \<Rightarrow> b)"

text \<open>\<^verbatim>\<open>const event = eventName ?? `onUpdate:${key.toString()}`\<close>\<close>

definition event :: "string \<Rightarrow> options \<Rightarrow> string" where
  "event key options = (case eventName options of Some e \<Rightarrow> e | None \<Rightarrow> ''onUpdate:'' @ key)"

text \<open>\<^verbatim>\<open>const getValue = () => (props[key] != null ? props[key] : defaultValue)!\<close>\<close>

definition getValue :: "(string \<Rightarrow> jsval) \<Rightarrow> string \<Rightarrow> options \<Rightarrow> jsval" where
  "getValue ps key options = (if \<not> nullish (ps key) then ps key else defaultValue options)"

text \<open>
  \<^verbatim>\<open>emit ? emit(event, value) : call(props[event], value)\<close>, the expression both modes use
  to notify; its value is not used.
\<close>

definition notify ::
  "behaviour \<Rightarrow> (string \<Rightarrow> jsval) \<Rightarrow> string \<Rightarrow> options \<Rightarrow> jsval \<Rightarrow> invocation list
     \<Rightarrow> (exn + unit) \<times> invocation list" where
  "notify beh ps key options v cs =
     (case emit options of
        Some e \<Rightarrow>
          (case beh e [Prim (Str (event key options)), v] of
             Inl x \<Rightarrow> (Inl x, cs @ [(e, [Prim (Str (event key options)), v])])
           | Inr r \<Rightarrow> (Inr (), cs @ [(e, [Prim (Str (event key options)), v])]))
      | None \<Rightarrow>
          (case call beh (ps (event key options)) [v] cs of
             (Inl x, cs') \<Rightarrow> (Inl x, cs')
           | (Inr r, cs') \<Rightarrow> (Inr (), cs')))"

text \<open>
  \<^verbatim>\<open>
    if (!passive) { return computed({ get() { return getValue() }, set(value) { ... } }) }
    const proxy = ref(getValue())
    watch(() => props[key], () => { proxy.value = getValue() })
    watch(() => proxy.value, (newValue) => { emit ? emit(event, newValue) : call(props[event], newValue) })
    return proxy
  \<close>
  Without \<open>passive\<close> no cell is created. Otherwise the cell starts with the resolved
  value, each watcher has seen the current value of its source, and no job is queued.
\<close>

definition useVModel :: "(string \<Rightarrow> jsval) \<Rightarrow> string \<Rightarrow> options \<Rightarrow> vmodel" where
  "useVModel ps key options =
     (if \<not> is_passive options then \<lparr>props = ps, proxy = None, queue = [], calls = []\<rparr>
      else
        \<lparr>props = ps,
         proxy = Some \<lparr>rawValue = toRaw (getValue ps key options),
                       cell = toReactive (getValue ps key options),
                       seen_source = ps key,
                       seen_cell = toReactive (getValue ps key options)\<rparr>,
         queue = [], calls = []\<rparr>)"

text \<open>
  The scheduler's \<open>queueJob\<close>: a job that already waits is not queued again; a new job
  goes behind the jobs that wait.
\<close>

definition queueJob :: "job \<Rightarrow> job list \<Rightarrow> job list" where
  "queueJob j q = (if j \<in> set q then q else q @ [j])"

text \<open>
  The setter of a ref's \<open>value\<close>: when the new value, with a reactive proxy taken off,
  is not the value kept, it is stored and the watchers of the ref are triggered. The
  result says whether they were.
\<close>

definition set_ref :: "jsval \<Rightarrow> proxy_ref \<Rightarrow> proxy_ref \<times> bool" where
  "set_ref v r =
     (let newValue = toRaw v in
      if hasChanged newValue (rawValue r)
      then (r\<lparr>rawValue := newValue, cell := toReactive newValue\<rparr>, True)
      else (r, False))"

text \<open>
  The job of a watcher made by \<open>watch(source, callback)\<close>: it reads its source, and
  when the value is not the one it saw last, it remembers the value and runs the
  callback with it. The first watcher's source is \<^verbatim>\<open>props[key]\<close> and its callback is
  \<^verbatim>\<open>proxy.value = getValue()\<close>; the result says whether that assignment triggered the
  second watcher. The second watcher's source is \<^verbatim>\<open>proxy.value\<close> and its callback is the
  notification. An exception of a callback is handled by the framework and goes no
  further.
\<close>

definition sync_job :: "string \<Rightarrow> options \<Rightarrow> vmodel \<Rightarrow> vmodel \<times> bool" where
  "sync_job key options st =
     (case proxy st of
        None \<Rightarrow> (st, False)
      | Some r \<Rightarrow>
          if hasChanged (props st key) (seen_source r)
          then (case set_ref (getValue (props st) key options) (r\<lparr>seen_source := props st key\<rparr>) of
                  (r', triggered) \<Rightarrow> (st\<lparr>proxy := Some r'\<rparr>, triggered))
          else (st, False))"

definition notify_job :: "behaviour \<Rightarrow> string \<Rightarrow> options \<Rightarrow> vmodel \<Rightarrow> vmodel" where
  "notify_job beh key options st =
     (case proxy st of
        None \<Rightarrow> st
      | Some r \<Rightarrow>
          if hasChanged (cell r) (seen_cell r)
          then st\<lparr>proxy := Some (r\<lparr>seen_cell := cell r\<rparr>),
                  calls := snd (notify beh (props st) key options (cell r) (calls st))\<rparr>
          else st)"

text \<open>
  The scheduler's flush: the jobs that wait are run one after the other, first queued
  first; a job triggered by a job that runs is queued behind them and runs in the same
  flush.
\<close>

function flushJobs :: "behaviour \<Rightarrow> string \<Rightarrow> options \<Rightarrow> job list \<Rightarrow> vmodel \<Rightarrow> vmodel" where
  "flushJobs beh key options [] st = st"
| "flushJobs beh key options (SyncJob # q) st =
     flushJobs beh key options
       (if snd (sync_job key options st) then queueJob NotifyJob q else q)
       (fst (sync_job key options st))"
| "flushJobs beh key options (NotifyJob # q) st =
     flushJobs beh key options q (notify_job beh key options st)"
  by pat_completeness auto
termination
  by (relation "measure (\<lambda>(beh, key, options, q, st). 2 * count_list q SyncJob + length q)")
     (auto simp: queueJob_def)

definition flush :: "behaviour \<Rightarrow> string \<Rightarrow> options \<Rightarrow> vmodel \<Rightarrow> vmodel" where
  "flush beh key options st = flushJobs beh key options (queue st) (st\<lparr>queue := []\<rparr>)"

text \<open>Reading \<open>value\<close> of the returned cell.\<close>

definition get_value :: "string \<Rightarrow> options \<Rightarrow> vmodel \<Rightarrow> jsval" where
  "get_value key options st =
     (case proxy st of
        None \<Rightarrow> getValue (props st) key options
      | Some r \<Rightarrow> cell r)"

text \<open>
  Writing \<open>value\<close> of the returned cell: the setter of the computed cell notifies at
  once and stores nothing; a write to the ref stores the value and, when the value
  has changed, queues the job of the second watcher. The watchers do not run before
  the next flush.
\<close>

definition set_value ::
  "behaviour \<Rightarrow> string \<Rightarrow> options \<Rightarrow> jsval \<Rightarrow> vmodel \<Rightarrow> (exn + unit) \<times> vmodel" where
  "set_value beh key options v st =
     (case proxy st of
        None \<Rightarrow>
          (case notify beh (props st) key options v (calls st) of
             (res, cs) \<Rightarrow> (res, st\<lparr>calls := cs\<rparr>))
      | Some r \<Rightarrow>
          (case set_ref v r of
             (r', triggered) \<Rightarrow>
               (Inr (),
                st\<lparr>proxy := Some r',
                   queue := (if triggered then queueJob NotifyJob (queue st) else queue st)\<rparr>)))"

text \<open>
  The owner of the property bag gives the property \<open>k\<close> the value \<open>v\<close>. When that
  changes the watched property of a binding with a cell, the job of the first watcher
  is queued.
\<close>

definition set_prop :: "string \<Rightarrow> string \<Rightarrow> jsval \<Rightarrow> vmodel \<Rightarrow> vmodel" where
  "set_prop key k v st =
     st\<lparr>props := (props st)(k := v),
        queue := (if k = key \<and> proxy st \<noteq> None \<and> hasChanged v (props st k)
                  then queueJob SyncJob (queue st) else queue st)\<rparr>"

text \<open>
  The steps of a binding: the source property bag changes from outside, the cell is
  written locally, or the scheduler flushes its queue.
\<close>

datatype action = SetProp string jsval | Write jsval | Flush

fun step :: "behaviour \<Rightarrow> string \<Rightarrow> options \<Rightarrow> action \<Rightarrow> vmodel \<Rightarrow> vmodel" where
  "step beh key options (SetProp k v) st = set_prop key k v st"
| "step beh key options (Write v) st = snd (set_value beh key options v st)"
| "step beh key options Flush st = flush beh key options st"

text \<open>The states a binding reaches from its creation.\<close>

inductive reachable :: "behaviour \<Rightarrow> (string \<Rightarrow> jsval) \<Rightarrow> string \<Rightarrow> options \<Rightarrow> vmodel \<Rightarrow> bool"
  for beh ps key options where
  created: "reachable beh ps key options (useVModel ps key options)"
| stepped: "reachable beh ps key options st \<Longrightarrow>
         reachable beh ps key options (step beh key options a st)"

text \<open>
  Notions used to state the properties of \<open>useVModel\<close>: a function that returns
  normally when called with given arguments; local writes of a list of values, one
  after the other, with no flush between them; and, for the proofs, a cell that is
  consistent with the jobs \<open>q\<close> that wait: it reads as the reactive form of the value
  it keeps, and a watcher whose job does not wait has seen the current value of its
  source.
\<close>

definition returns :: "behaviour \<Rightarrow> jsval list \<Rightarrow> nat \<Rightarrow> bool" where
  "returns beh args f = (case beh f args of Inl e \<Rightarrow> False | Inr r \<Rightarrow> True)"

definition writes :: "behaviour \<Rightarrow> string \<Rightarrow> options \<Rightarrow> jsval list \<Rightarrow> vmodel \<Rightarrow> vmodel" where
  "writes beh key options vs st = fold (\<lambda>v. step beh key options (Write v)) vs st"

definition consistent :: "string \<Rightarrow> job list \<Rightarrow> vmodel \<Rightarrow> bool" where
  "consistent key q st =
     (case proxy st of
        None \<Rightarrow> False
      | Some r \<Rightarrow>
          cell r = toReactive (rawValue r) \<and> toRaw (rawValue r) = rawValue r \<and>
          (SyncJob \<notin> set q \<longrightarrow> Object_is (props st key) (seen_source r)) \<and>
          (NotifyJob \<notin> set q \<longrightarrow> Object_is (cell r) (seen_cell r)))"

section \<open>Properties of formatElevation\<close>

text \<open>
  Claim C8. \<open>formatElevation\<close> returns \<open>null\<close> exactly when \<open>elevation\<close> is the boolean
  \<open>false\<close>. When \<open>elevation\<close> is the boolean \<open>true\<close> and \<open>defaultLevel\<close> is not supplied
  or is \<open>0\<close>, the boolean is kept and the result is \<open>var-elevation--true\<close>. When
  \<open>elevation\<close> is \<open>true\<close> and \<open>defaultLevel\<close> is a non-zero number, the result is
  \<open>var-elevation--\<close> followed by that number; for every other \<open>elevation\<close> it is
  \<open>var-elevation--\<close> followed by the string form of \<open>elevation\<close> itself.
\<close>

theorem formatElevation_cases:
  "(formatElevation e d = None \<longleftrightarrow> e = Bool False) \<and>
   (e = Bool True \<and> (d = None \<or> d = Some 0) \<longrightarrow>
      formatElevation e d = Some ''var-elevation--true'') \<and>
   (e = Bool True \<and> d = Some n \<and> n \<noteq> 0 \<longrightarrow>
      formatElevation e d = Some (''var-elevation--'' @ String (Num n))) \<and>
   (e \<noteq> Bool False \<and> e \<noteq> Bool True \<longrightarrow>
      formatElevation e d = Some (''var-elevation--'' @ String e))"
  by (cases d) (simp_all add: formatElevation_def)

theorem formatElevation_cases_witness:
  "formatElevation (Bool False) (Some 3) = None \<and>
   formatElevation (Bool True) None = Some ''var-elevation--true'' \<and>
   formatElevation (Bool True) (Some 0) = Some ''var-elevation--true'' \<and>
   formatElevation (Bool True) (Some 3) = Some ''var-elevation--3'' \<and>
   formatElevation (Num 12) (Some 3) = Some ''var-elevation--12'' \<and>
   formatElevation (Str ''4'') None = Some ''var-elevation--4''"
proof -
  have a: "formatElevation (Bool False) (Some 3) = None"
    using formatElevation_cases [of "Bool False" "Some 3" 3] by simp
  have b: "formatElevation (Bool True) None = Some ''var-elevation--true''"
    using formatElevation_cases [of "Bool True" None 0] by simp
  have c: "formatElevation (Bool True) (Some 0) = Some ''var-elevation--true''"
    using formatElevation_cases [of "Bool True" "Some 0" 0] by simp
  have d: "formatElevation (Bool True) (Some 3) = Some ''var-elevation--3''"
    using formatElevation_cases [of "Bool True" "Some 3" 3]
    by (simp add: num_to_string_def digits.simps)
  have e: "formatElevation (Num 12) (Some 3) = Some ''var-elevation--12''"
    using formatElevation_cases [of "Num 12" "Some 3" 3]
    by (simp add: num_to_string_def digits.simps)
  have f: "formatElevation (Str ''4'') None = Some ''var-elevation--4''"
    using formatElevation_cases [of "Str ''4''" None 0] by simp
  from a b c d e f show ?thesis by simp
qed

section \<open>Properties of flatFragment\<close>

lemma fold_push: "fold push xs acc = acc @ xs"
  by (induction xs arbitrary: acc) (simp_all add: push_def)

lemma fold_flatFragment_body:
  "fold flatFragment_body vs acc =
     acc @ concat (map (\<lambda>v. if type v = Comment then []
                              else if type v = Fragment \<and> isArray (children v)
                                then elements (children v)
                              else [v]) vs)"
  by (induction vs arbitrary: acc) (simp_all add: flatFragment_body_def fold_push push_def)

text \<open>
  Claim C9. For every list of nodes, \<open>flatFragment\<close> returns, in the original order, the
  list in which each \<open>Comment\<close> node is left out, each \<open>Fragment\<close> node whose children are
  an array is replaced in place by those children, and every other node is kept. The
  flattening is one level deep: the children of a \<open>Fragment\<close> are copied as they are,
  so a \<open>Comment\<close> or a nested \<open>Fragment\<close> among them stays in the result.
\<close>

theorem flatFragment_spec:
  "flatFragment vNodes =
     concat (map (\<lambda>v. if type v = Comment then []
                       else if type v = Fragment \<and> isArray (children v)
                         then elements (children v)
                       else [v]) vNodes) \<and>
   flatFragment [VNode Fragment (ChildArray cs)] = cs \<and>
   flatFragment (VNode Fragment (ChildArray cs) # rest) = cs @ flatFragment rest"
proof -
  have main: "flatFragment vs =
     concat (map (\<lambda>v. if type v = Comment then []
                       else if type v = Fragment \<and> isArray (children v)
                         then elements (children v)
                       else [v]) vs)" for vs
    unfolding flatFragment_def fold_flatFragment_body by simp
  show ?thesis
    unfolding main by (simp add: isArray_def elements_def)
qed

theorem flatFragment_spec_witness:
  "flatFragment
     [VNode Comment ChildNull,
      VNode (Element ''div'') (ChildArray [VNode Comment ChildNull]),
      VNode Fragment (ChildArray
        [VNode Comment ChildNull,
         VNode Fragment (ChildArray [VNode Text (ChildString ''a'')]),
         VNode Text (ChildString ''b'')]),
      VNode Fragment (ChildString ''c''),
      VNode Text (ChildString ''d'')]
   = [VNode (Element ''div'') (ChildArray [VNode Comment ChildNull]),
      VNode Comment ChildNull,
      VNode Fragment (ChildArray [VNode Text (ChildString ''a'')]),
      VNode Text (ChildString ''b''),
      VNode Fragment (ChildString ''c''),
      VNode Text (ChildString ''d'')]"
  using flatFragment_spec
    [of "[VNode Comment ChildNull,
      VNode (Element ''div'') (ChildArray [VNode Comment ChildNull]),
      VNode Fragment (ChildArray
        [VNode Comment ChildNull,
         VNode Fragment (ChildArray [VNode Text (ChildString ''a'')]),
         VNode Text (ChildString ''b'')]),
      VNode Fragment (ChildString ''c''),
      VNode Text (ChildString ''d'')]" "[]" "[]"]
  by (simp add: isArray_def elements_def)

section \<open>Properties of createNamespace\<close>

text \<open>
  Claim C10. For every component name and every suffix argument, the class string
  returned by \<open>n\<close> (\<open>createBEM\<close>) begins with the namespace prefix \<open>var\<close>: an undefined
  or empty suffix yields \<open>var-<name>\<close>; a suffix whose first character is \<open>$\<close> has that
  first \<open>$\<close> replaced by \<open>var\<close>; another suffix that starts with \<open>--\<close> yields
  \<open>var-<name>\<close> followed by the suffix; any other suffix yields \<open>var-<name>__<suffix>\<close>.
\<close>

theorem createBEM_spec:
  "startsWith (createBEM name suffix) ''var'' \<and>
   createBEM name None = ''var-'' @ name \<and>
   createBEM name (Some []) = ''var-'' @ name \<and>
   createBEM name (Some (CHR ''$'' # rest)) = ''var'' @ rest \<and>
   createBEM name (Some (''--'' @ modifier)) = ''var-'' @ name @ ''--'' @ modifier \<and>
   (suffix = Some s \<and> s \<noteq> [] \<and> hd s \<noteq> CHR ''$'' \<and> \<not> startsWith s ''--'' \<longrightarrow>
      createBEM name suffix = ''var-'' @ name @ ''__'' @ s)"
proof -
  have p: "startsWith (createBEM name suffix) ''var''"
  proof (cases suffix)
    case None
    then show ?thesis by (simp add: createBEM_def componentName_def namespace_def startsWith_def)
  next
    case (Some s)
    show ?thesis
    proof (cases s)
      case Nil
      with Some show ?thesis by (simp add: createBEM_def componentName_def namespace_def startsWith_def)
    next
      case (Cons c cs)
      with Some show ?thesis
        by (simp add: createBEM_def componentName_def namespace_def startsWith_def)
    qed
  qed
  have rest: "createBEM name None = ''var-'' @ name"
    "createBEM name (Some []) = ''var-'' @ name"
    "createBEM name (Some (CHR ''$'' # rest)) = ''var'' @ rest"
    "createBEM name (Some (''--'' @ modifier)) = ''var-'' @ name @ ''--'' @ modifier"
    "suffix = Some s \<and> s \<noteq> [] \<and> hd s \<noteq> CHR ''$'' \<and> \<not> startsWith s ''--'' \<longrightarrow>
      createBEM name suffix = ''var-'' @ name @ ''__'' @ s"
    by (simp_all add: createBEM_def componentName_def namespace_def startsWith_def)
  from p rest show ?thesis by blast
qed

theorem createBEM_spec_witness:
  "createBEM ''button'' None = ''var-button'' \<and>
   createBEM ''button'' (Some []) = ''var-button'' \<and>
   createBEM ''button'' (Some ''$--box'') = ''var--box'' \<and>
   createBEM ''button'' (Some ''$a$b'') = ''vara$b'' \<and>
   createBEM ''button'' (Some ''--primary'') = ''var-button--primary'' \<and>
   createBEM ''button'' (Some ''content'') = ''var-button__content'' \<and>
   startsWith (createBEM ''button'' (Some ''content'')) ''var''"
proof -
  have a: "createBEM ''button'' None = ''var-button''"
    "createBEM ''button'' (Some []) = ''var-button''"
    "createBEM ''button'' (Some ''$--box'') = ''var--box''"
    "createBEM ''button'' (Some ''--primary'') = ''var-button--primary''"
    "createBEM ''button'' (Some ''content'') = ''var-button__content''"
    "startsWith (createBEM ''button'' (Some ''content'')) ''var''"
    using createBEM_spec [of "''button''" "Some ''content''" "''--box''" "''primary''" "''content''"]
    by (simp_all add: startsWith_def)
  have b: "createBEM ''button'' (Some ''$a$b'') = ''vara$b''"
    using createBEM_spec [of "''button''" None "''a$b''" "[]" "[]"] by simp
  from a b show ?thesis by simp
qed

section \<open>Properties of Promise.all and of the validation runner\<close>

lemma all_inv_init: "all_inv vs {} (all_init (length vs))"
  by (auto simp: all_inv_def all_init_def)

lemma card_lt: "D \<subseteq> {0..<n} \<Longrightarrow> i < n \<Longrightarrow> i \<notin> D \<Longrightarrow> card D < n"
proof -
  assume a: "D \<subseteq> {0..<n}" "i < n" "i \<notin> D"
  then have "D \<subseteq> {0..<n} - {i}" by auto
  then have "card D \<le> card ({0..<n} - {i})" by (intro card_mono) auto
  also have "\<dots> = n - 1" using a by simp
  finally show ?thesis using a by simp
qed

lemma all_inv_step:
  assumes "all_inv vs D st" "i < length vs" "i \<notin> D"
  shows "all_inv vs (insert i D) (all_settle (map Fulfils vs) i st)"
proof -
  have fin: "finite D" using assms(1) by (auto simp: all_inv_def intro: finite_subset)
  have lt: "card D < length vs" using assms card_lt[of D "length vs" i] by (simp add: all_inv_def)
  show ?thesis
    using assms fin lt
    by (auto simp: all_inv_def all_settle_def Let_def nth_list_update)
qed

lemma all_inv_fold:
  "all_inv vs D st \<Longrightarrow> distinct xs \<Longrightarrow> set xs \<subseteq> {0..<length vs} \<Longrightarrow> set xs \<inter> D = {} \<Longrightarrow>
   all_inv vs (D \<union> set xs) (fold (all_settle (map Fulfils vs)) xs st)"
proof (induction xs arbitrary: D st)
  case Nil
  then show ?case by simp
next
  case (Cons x xs)
  have "all_inv vs (insert x D) (all_settle (map Fulfils vs) x st)"
    using Cons.prems by (intro all_inv_step) auto
  from Cons.IH[OF this] Cons.prems show ?case by auto
qed

lemma promise_all_fulfilled:
  assumes "distinct order" "set order = {0..<length vs}"
  shows "promise_all (map Fulfils vs) order = Some (Inr vs)"
proof -
  let ?st = "fold (all_settle (map Fulfils vs)) order (all_init (length vs))"
  have "all_inv vs ({} \<union> set order) ?st"
    using assms by (intro all_inv_fold all_inv_init) auto
  then have inv: "all_inv vs {0..<length vs} ?st" using assms by simp
  then have "slots ?st = vs"
    by (intro nth_equalityI) (auto simp: all_inv_def)
  with inv show ?thesis by (simp add: promise_all_def all_inv_def)
qed

lemma result_settled_step:
  "result st = Some r \<Longrightarrow> result (all_settle ps j st) = Some r"
  by (auto simp: all_settle_def Let_def split: settlement.splits)

lemma result_settled_fold:
  "result st = Some r \<Longrightarrow> result (fold (all_settle ps) xs st) = Some r"
  by (induction xs arbitrary: st) (simp_all add: result_settled_step)

lemma pending_inv_step:
  "pending_inv n k st \<Longrightarrow> \<not> (j < length ps \<and> is_rejected (ps ! j)) \<Longrightarrow>
   pending_inv n (Suc k) (all_settle ps j st)"
  by (auto simp: pending_inv_def all_settle_def Let_def is_rejected_def split: settlement.splits)

lemma pending_inv_fold:
  "pending_inv n k st \<Longrightarrow> \<forall>j\<in>set xs. \<not> (j < length ps \<and> is_rejected (ps ! j)) \<Longrightarrow>
   pending_inv n (k + length xs) (fold (all_settle ps) xs st)"
proof (induction xs arbitrary: k st)
  case Nil
  then show ?case by simp
next
  case (Cons x xs)
  have "pending_inv n (Suc k) (all_settle ps x st)"
    using Cons.prems by (intro pending_inv_step) auto
  from Cons.IH[OF this] Cons.prems show ?case by simp
qed

lemma promise_all_rejected:
  assumes ord: "order = before @ i # after" "distinct order" "set order \<subseteq> {0..<length ps}"
    and rej: "ps ! i = Rejects e"
    and bef: "\<forall>j\<in>set before. \<not> is_rejected (ps ! j)"
  shows "promise_all ps order = Some (Inl e)"
proof -
  let ?n = "length ps"
  have i: "i < ?n" "i \<notin> set before" "distinct before" "set before \<subseteq> {0..<?n}"
    using ord by auto
  have "card (set before) < ?n" using i by (intro card_lt[of _ _ i]) auto
  then have len: "length before < ?n" using i by (simp add: distinct_card)
  let ?st = "fold (all_settle ps) before (all_init ?n)"
  have "pending_inv ?n 0 (all_init ?n)"
    using i by (auto simp: pending_inv_def all_init_def)
  then have "pending_inv ?n (0 + length before) ?st"
    using bef by (intro pending_inv_fold) auto
  then have "result ?st = None" using len by (auto simp: pending_inv_def)
  then have "result (all_settle ps i ?st) = Some (Inl e)"
    using i rej by (simp add: all_settle_def)
  then have "result (fold (all_settle ps) after (all_settle ps i ?st)) = Some (Inl e)"
    by (rule result_settled_fold)
  then show ?thesis by (simp add: promise_all_def ord)
qed

lemma map_rules_promised:
  "map (\<lambda>rule. promised (rule value apis)) rs = map Some ps \<Longrightarrow>
   map_rules rs value apis s = (Inr ps, s\<lparr>invoked := invoked s + length rs\<rparr>)"
proof (induction rs arbitrary: ps s)
  case Nil
  then show ?case by simp
next
  case (Cons r rs)
  then obtain p ps' where ps: "ps = p # ps'" "promised (r value apis) = Some p"
    "map (\<lambda>rule. promised (rule value apis)) rs = map Some ps'"
    by (cases ps) auto
  from Cons.IH[OF ps(3)] ps(1,2) show ?case
    by (auto simp: promised_def Let_def split: rule_result.splits)
qed

lemma map_rules_throws:
  "map (\<lambda>rule. promised (rule value apis)) pre = map Some ps \<Longrightarrow> r value apis = Throws e \<Longrightarrow>
   map_rules (pre @ r # post) value apis s = (Inl e, s\<lparr>invoked := invoked s + length pre + 1\<rparr>)"
proof (induction pre arbitrary: ps s)
  case Nil
  then show ?case by simp
next
  case (Cons q pre)
  then obtain p ps' where ps: "ps = p # ps'" "promised (q value apis) = Some p"
    "map (\<lambda>rule. promised (rule value apis)) pre = map Some ps'"
    by (cases ps) auto
  from Cons.IH[OF ps(3) Cons.prems(2)] ps(1,2) show ?case
    by (auto simp: promised_def Let_def split: rule_result.splits)
qed

lemma awaited_promised:
  "awaited r = Some v \<Longrightarrow> promised r = Some (Fulfils v)"
  by (auto simp: awaited_def promised_def split: rule_result.splits settlement.splits)

lemma map_awaited_promised:
  "map (\<lambda>rule. awaited (rule value apis)) rs = map Some vs \<Longrightarrow>
   map (\<lambda>rule. promised (rule value apis)) rs = map Some (map Fulfils vs)"
proof (induction rs arbitrary: vs)
  case Nil
  then show ?case by simp
next
  case (Cons r rs)
  then show ?case by (cases vs) (auto simp: awaited_promised)
qed

lemma some_failed_first:
  "list_all (\<lambda>res. res = Bool True) passed \<Longrightarrow> failing \<noteq> Bool True \<Longrightarrow>
   some_failed (passed @ failing # rest) s = (True, s\<lparr>errorMessage := String failing\<rparr>)"
  by (induction passed) simp_all

lemma some_failed_none:
  "list_all (\<lambda>res. res = Bool True) rs \<Longrightarrow> some_failed rs s = (False, s)"
  by (induction rs) simp_all

lemma some_failed_False: "some_failed rs s = (False, s') \<Longrightarrow> s' = s"
  by (induction rs) (auto split: if_splits)

lemma map_rules_errorMessage:
  "map_rules rs value apis s = (r, s') \<Longrightarrow> errorMessage s' = errorMessage s"
  by (induction rs arbitrary: s r s')
     (auto simp: Let_def split: rule_result.splits prod.splits sum.splits)

lemma validate_awaited:
  assumes "map (\<lambda>rule. awaited (rule value apis)) rules = map Some results"
    and "rules \<noteq> []" and "distinct order" and "set order = {0..<length rules}"
  shows "validate (RuleArray rules) value apis order s =
     (case some_failed results (s\<lparr>invoked := invoked s + length rules\<rparr>) of
        (found, s2) \<Rightarrow> (Resolved (\<not> found), s2))"
proof -
  have len: "length results = length rules"
    using assms(1) by (metis length_map)
  have "map_rules rules value apis s =
          (Inr (map Fulfils results), s\<lparr>invoked := invoked s + length rules\<rparr>)"
    using assms(1) by (intro map_rules_promised map_awaited_promised)
  moreover have "promise_all (map Fulfils results) order = Some (Inr results)"
    using assms(3,4) len by (intro promise_all_fulfilled) auto
  ultimately show ?thesis
    using assms(2) by (simp add: validate_def)
qed

lemma validate_failing:
  assumes "map (\<lambda>rule. awaited (rule value apis)) rules = map Some (passed @ failing # rest)"
    and "list_all (\<lambda>res. res = Bool True) passed" and "failing \<noteq> Bool True"
    and "distinct order" and "set order = {0..<length rules}"
  shows "validate (RuleArray rules) value apis order s =
           (Resolved False, s\<lparr>invoked := invoked s + length rules, errorMessage := String failing\<rparr>)"
proof -
  have "rules \<noteq> []" using assms(1) by auto
  from validate_awaited[OF assms(1) this assms(4,5)] some_failed_first[OF assms(2,3)]
  show ?thesis by simp
qed

lemma validate_passing:
  assumes "map (\<lambda>rule. awaited (rule value apis)) rules = map Some results"
    and "list_all (\<lambda>res. res = Bool True) results" and "rules \<noteq> []"
    and "distinct order" and "set order = {0..<length rules}"
  shows "validate (RuleArray rules) value apis order s =
           (Resolved True, s\<lparr>invoked := invoked s + length rules\<rparr>)"
  using validate_awaited[OF assms(1,3,4,5)] some_failed_none[OF assms(2)] by simp

lemma validate_errorMessage_unless_false:
  assumes "validate rules value apis order s = (r, s')" "r \<noteq> Resolved False"
  shows "errorMessage s' = errorMessage s"
proof (cases rules)
  case NotArray
  with assms show ?thesis by (simp add: validate_def)
next
  case (RuleArray rs)
  show ?thesis
  proof (cases "rs = []")
    case True
    with assms RuleArray show ?thesis by (simp add: validate_def)
  next
    case False
    obtain m s1 where m: "map_rules rs value apis s = (m, s1)" by (cases "map_rules rs value apis s")
    then have e1: "errorMessage s1 = errorMessage s" by (rule map_rules_errorMessage)
    show ?thesis
    proof (cases m)
      case (Inl e)
      with assms RuleArray False m e1 show ?thesis by (simp add: validate_def)
    next
      case (Inr ps)
      show ?thesis
      proof (cases "promise_all ps order")
        case None
        with assms RuleArray False m e1 Inr show ?thesis by (simp add: validate_def)
      next
        case (Some a)
        show ?thesis
        proof (cases a)
          case (Inl e)
          with assms RuleArray False m e1 Inr Some show ?thesis by (simp add: validate_def)
        next
          case (Inr resArr)
          obtain found s2 where f: "some_failed resArr s1 = (found, s2)"
            by (cases "some_failed resArr s1")
          with assms RuleArray False m \<open>m = Inr ps\<close> Some Inr
          have "r = Resolved (\<not> found)" "s' = s2" by (simp_all add: validate_def)
          with assms(2) have "\<not> found" by auto
          with f have "s2 = s1" by (auto dest: some_failed_False)
          with e1 \<open>s' = s2\<close> show ?thesis by simp
        qed
      qed
    qed
  qed
qed

lemma map_rules_Inr:
  "map_rules rs value apis s = (Inr ps, s') \<Longrightarrow>
   map (\<lambda>rule. promised (rule value apis)) rs = map Some ps"
  by (induction rs arbitrary: s ps s')
     (auto simp: Let_def promised_def split: rule_result.splits prod.splits sum.splits)

lemma validate_some_fails:
  assumes ex: "\<exists>rule\<in>set rules. fails (rule value apis)"
    and ord: "distinct order" "set order = {0..<length rules}"
  shows "\<exists>e s'. validate (RuleArray rules) value apis order s = (Rejected e, s') \<and>
           errorMessage s' = errorMessage s"
proof -
  have ne: "rules \<noteq> []" using ex by auto
  obtain m s1 where m: "map_rules rules value apis s = (m, s1)"
    by (cases "map_rules rules value apis s")
  then have e1: "errorMessage s1 = errorMessage s" by (rule map_rules_errorMessage)
  show ?thesis
  proof (cases m)
    case (Inl e)
    with m ne e1 show ?thesis by (simp add: validate_def)
  next
    case (Inr ps)
    with m have pr: "map (\<lambda>rule. promised (rule value apis)) rules = map Some ps"
      by (auto dest: map_rules_Inr)
    then have len: "length ps = length rules" by (metis length_map)
    from ex obtain k where k: "k < length rules" "fails ((rules ! k) value apis)"
      by (auto simp: in_set_conv_nth)
    from pr k(1) have "promised ((rules ! k) value apis) = Some (ps ! k)"
      by (metis len nth_map)
    with k(2) have "is_rejected (ps ! k)"
      by (auto simp: fails_def promised_def is_rejected_def
               split: rule_result.splits settlement.splits)
    moreover have "k \<in> set order" using k(1) ord by simp
    ultimately have "\<exists>j\<in>set order. is_rejected (ps ! j)" by blast
    then obtain before i after where sp: "order = before @ i # after"
      "is_rejected (ps ! i)" "\<forall>j\<in>set before. \<not> is_rejected (ps ! j)"
      using split_list_first_prop [of order "\<lambda>j. is_rejected (ps ! j)"] by blast
    from sp(2) obtain e where e: "ps ! i = Rejects e"
      by (auto simp: is_rejected_def split: settlement.splits)
    have "promise_all ps order = Some (Inl e)"
      using sp(1) ord len e sp(3) by (intro promise_all_rejected[of _ before i after]) auto
    with m Inr ne e1 show ?thesis by (simp add: validate_def)
  qed
qed

text \<open>
  Claim C1. For every array of rules in which every rule has an awaited result and at
  least one of these results is not exactly \<open>true\<close>, \<open>validate\<close> resolves to \<open>false\<close> and
  afterwards \<open>errorMessage\<close> is \<open>String\<close> of the first failing result in the order of the
  rules array, whatever the order in which the rule promises complete. Every rule has
  been called once.
\<close>

theorem validate_first_failing:
  assumes "map (\<lambda>rule. awaited (rule value apis)) rules = map Some (passed @ failing # rest)"
    and "list_all (\<lambda>res. res = Bool True) passed" and "failing \<noteq> Bool True"
    and "distinct order" and "set order = {0..<length rules}"
  shows "validate (RuleArray rules) value apis order s =
           (Resolved False, s\<lparr>invoked := invoked s + length rules, errorMessage := String failing\<rparr>)"
  using assms by (rule validate_failing)

theorem validate_first_failing_witness:
  "validate (RuleArray [\<lambda>v a. Promise (Fulfils (Bool True)),
                        \<lambda>v a. Promise (Fulfils (Str ''too short''))]) (Str []) () [1, 0] useValidation
     = (Resolved False, \<lparr>errorMessage = ''too short'', invoked = 2\<rparr>) \<and>
   validate (RuleArray [\<lambda>v a. Returns (Bool True), \<lambda>v a. Promise (Fulfils (Num 7)),
                        \<lambda>v a. Promise (Fulfils (Bool True)), \<lambda>v a. Returns (Bool False)])
       (Str []) () [3, 0, 2, 1] useValidation
     = (Resolved False, \<lparr>errorMessage = ''7'', invoked = 4\<rparr>)"
proof -
  let ?r1 = "[\<lambda>v a. Promise (Fulfils (Bool True)),
              \<lambda>v a. Promise (Fulfils (Str ''too short''))] :: (prim, unit) rule list"
  let ?r2 = "[\<lambda>v a. Returns (Bool True), \<lambda>v a. Promise (Fulfils (Num 7)),
              \<lambda>v a. Promise (Fulfils (Bool True)), \<lambda>v a. Returns (Bool False)]
             :: (prim, unit) rule list"
  have a1: "map (\<lambda>rule. awaited (rule (Str []) ())) ?r1 = map Some ([Bool True] @ Str ''too short'' # [])"
    by (simp add: awaited_def)
  have a2: "list_all (\<lambda>res. res = Bool True) [Bool True]" "Str ''too short'' \<noteq> Bool True"
    "distinct [1, 0::nat]" "set [1, 0::nat] = {0..<length ?r1}"
    by auto
  have b1: "map (\<lambda>rule. awaited (rule (Str []) ())) ?r2 = map Some ([Bool True] @ Num 7 # [Bool True, Bool False])"
    by (simp add: awaited_def)
  have b2: "Num 7 \<noteq> Bool True" "distinct [3, 0, 2, 1::nat]" "set [3, 0, 2, 1::nat] = {0..<length ?r2}"
    by auto
  show ?thesis
    using validate_first_failing [OF a1 a2, of useValidation]
      validate_first_failing [OF b1 a2(1) b2, of useValidation]
    by (simp add: useValidation_def num_to_string_def digits.simps)
qed

text \<open>
  Claim C3. Whenever \<open>validate\<close> resolves to \<open>true\<close>, \<open>errorMessage\<close> is what it was before
  the call. \<open>validate\<close> resolves to \<open>true\<close>, with the whole state unchanged, when \<open>rules\<close>
  is not an array or is empty; and it resolves to \<open>true\<close>, having only called the rules,
  when every rule's awaited result is exactly \<open>true\<close>.
\<close>

theorem validate_true_keeps_errorMessage:
  "(validate rules value apis order s = (Resolved True, s') \<longrightarrow>
      errorMessage s' = errorMessage s) \<and>
   validate NotArray value apis order s = (Resolved True, s) \<and>
   validate (RuleArray []) value apis order s = (Resolved True, s) \<and>
   (rs \<noteq> [] \<and> map (\<lambda>rule. awaited (rule value apis)) rs = map Some results \<and>
    list_all (\<lambda>res. res = Bool True) results \<and>
    distinct order \<and> set order = {0..<length rs} \<longrightarrow>
      validate (RuleArray rs) value apis order s =
        (Resolved True, s\<lparr>invoked := invoked s + length rs\<rparr>))"
proof -
  have a: "validate rules value apis order s = (Resolved True, s') \<longrightarrow>
      errorMessage s' = errorMessage s"
    using validate_errorMessage_unless_false [of rules "value" apis order s "Resolved True" s']
    by simp
  have b: "validate NotArray value apis order s = (Resolved True, s)"
    "validate (RuleArray []) value apis order s = (Resolved True, s)"
    by (simp_all add: validate_def)
  have c: "rs \<noteq> [] \<and> map (\<lambda>rule. awaited (rule value apis)) rs = map Some results \<and>
    list_all (\<lambda>res. res = Bool True) results \<and>
    distinct order \<and> set order = {0..<length rs} \<longrightarrow>
      validate (RuleArray rs) value apis order s =
        (Resolved True, s\<lparr>invoked := invoked s + length rs\<rparr>)"
    using validate_passing [of "value" apis rs results order s] by blast
  from a b c show ?thesis by blast
qed

theorem validate_true_keeps_errorMessage_witness:
  "validate (RuleArray [\<lambda>v a. Promise (Fulfils (Bool True)), \<lambda>v a. Returns (Bool True)])
       (Num 1) () [1, 0] \<lparr>errorMessage = ''old message'', invoked = 0\<rparr>
     = (Resolved True, \<lparr>errorMessage = ''old message'', invoked = 2\<rparr>) \<and>
   errorMessage (snd (validate (RuleArray [\<lambda>v a. Promise (Fulfils (Bool True)),
                                           \<lambda>v a. Returns (Bool True)])
       (Num 1) () [1, 0] \<lparr>errorMessage = ''old message'', invoked = 0\<rparr>)) = ''old message'' \<and>
   validate (RuleArray []) (Num 1) () [] \<lparr>errorMessage = ''old message'', invoked = 0\<rparr>
     = (Resolved True, \<lparr>errorMessage = ''old message'', invoked = 0\<rparr>)"
proof -
  let ?rs = "[\<lambda>v a. Promise (Fulfils (Bool True)), \<lambda>v a. Returns (Bool True)]
             :: (prim, unit) rule list"
  let ?s = "\<lparr>errorMessage = ''old message'', invoked = 0\<rparr>"
  let ?s' = "\<lparr>errorMessage = ''old message'', invoked = 2\<rparr>"
  have h: "?rs \<noteq> []"
    "map (\<lambda>rule. awaited (rule (Num 1) ())) ?rs = map Some [Bool True, Bool True]"
    "list_all (\<lambda>res. res = Bool True) [Bool True, Bool True]"
    "distinct [1, 0::nat]" "set [1, 0::nat] = {0..<length ?rs}"
    by (auto simp: awaited_def)
  note t = validate_true_keeps_errorMessage
    [of "RuleArray ?rs" "Num 1" "()" "[1, 0]" ?s ?s' ?rs "[Bool True, Bool True]"]
  from t h have run: "validate (RuleArray ?rs) (Num 1) () [1, 0] ?s = (Resolved True, ?s')"
    by simp
  with t have keep: "errorMessage ?s' = errorMessage ?s"
    by blast
  have empty: "validate (RuleArray []) (Num 1) () [] ?s = (Resolved True, ?s)"
    using validate_true_keeps_errorMessage
      [of "RuleArray []" "Num 1" "()" "[]" ?s ?s "[]" "[]"] by blast
  from run keep empty show ?thesis by simp
qed

text \<open>
  Claim C4. \<open>validateWithTrigger\<close> does nothing (no rule is called and \<open>errorMessage\<close> is
  unchanged) when \<open>trigger\<close> is not a member of \<open>validateTrigger\<close>. When it is a member,
  \<open>validate\<close> is run; when \<open>validate\<close> resolves \<open>true\<close>, \<open>errorMessage\<close> is set to the empty
  string, and in every other case the state is the one \<open>validate\<close> left; in particular,
  when validation fails, \<open>errorMessage\<close> is the string of the first failing result.
\<close>

theorem validateWithTrigger_spec:
  "(trigger \<notin> set validateTrigger \<longrightarrow>
      validateWithTrigger validateTrigger trigger rules value apis order s = (Resolved (), s)) \<and>
   (trigger \<in> set validateTrigger \<and> validate rules value apis order s = (Resolved True, s1) \<longrightarrow>
      validateWithTrigger validateTrigger trigger rules value apis order s =
        (Resolved (), s1\<lparr>errorMessage := []\<rparr>)) \<and>
   (trigger \<in> set validateTrigger \<and> validate rules value apis order s = (r, s1) \<and>
    r \<noteq> Resolved True \<longrightarrow>
      snd (validateWithTrigger validateTrigger trigger rules value apis order s) = s1) \<and>
   (trigger \<in> set validateTrigger \<and>
    map (\<lambda>rule. awaited (rule value apis)) rs = map Some (passed @ failing # rest) \<and>
    list_all (\<lambda>res. res = Bool True) passed \<and> failing \<noteq> Bool True \<and>
    distinct order \<and> set order = {0..<length rs} \<longrightarrow>
      validateWithTrigger validateTrigger trigger (RuleArray rs) value apis order s =
        (Resolved (),
         s\<lparr>invoked := invoked s + length rs, errorMessage := String failing\<rparr>))"
proof -
  have a: "trigger \<notin> set validateTrigger \<longrightarrow>
      validateWithTrigger validateTrigger trigger rules value apis order s = (Resolved (), s)"
    by (simp add: validateWithTrigger_def)
  have b: "trigger \<in> set validateTrigger \<and> validate rules value apis order s = (Resolved True, s1) \<longrightarrow>
      validateWithTrigger validateTrigger trigger rules value apis order s =
        (Resolved (), s1\<lparr>errorMessage := []\<rparr>)"
    by (simp add: validateWithTrigger_def)
  have c: "trigger \<in> set validateTrigger \<and> validate rules value apis order s = (r, s1) \<and>
    r \<noteq> Resolved True \<longrightarrow>
      snd (validateWithTrigger validateTrigger trigger rules value apis order s) = s1"
    by (cases r) (auto simp: validateWithTrigger_def)
  have d: "trigger \<in> set validateTrigger \<and>
    map (\<lambda>rule. awaited (rule value apis)) rs = map Some (passed @ failing # rest) \<and>
    list_all (\<lambda>res. res = Bool True) passed \<and> failing \<noteq> Bool True \<and>
    distinct order \<and> set order = {0..<length rs} \<longrightarrow>
      validateWithTrigger validateTrigger trigger (RuleArray rs) value apis order s =
        (Resolved (),
         s\<lparr>invoked := invoked s + length rs, errorMessage := String failing\<rparr>)"
    using validate_failing [of "value" apis rs passed failing rest order s]
    by (auto simp: validateWithTrigger_def)
  from a b c d show ?thesis by blast
qed

theorem validateWithTrigger_spec_witness:
  "validateWithTrigger [''onBlur'', ''onChange''] ''onInput''
       (RuleArray [\<lambda>v a. Promise (Fulfils (Str ''too short''))]) (Str []) () [0]
       \<lparr>errorMessage = ''old message'', invoked = 0\<rparr>
     = (Resolved (), \<lparr>errorMessage = ''old message'', invoked = 0\<rparr>) \<and>
   validateWithTrigger [''onBlur'', ''onChange''] ''onChange''
       (RuleArray [\<lambda>v a. Promise (Fulfils (Bool True)),
                   \<lambda>v a. Promise (Fulfils (Str ''too short''))]) (Str []) () [1, 0]
       \<lparr>errorMessage = ''old message'', invoked = 0\<rparr>
     = (Resolved (), \<lparr>errorMessage = ''too short'', invoked = 2\<rparr>) \<and>
   validateWithTrigger [''onBlur'', ''onChange''] ''onChange''
       (RuleArray []) (Str []) () []
       \<lparr>errorMessage = ''old message'', invoked = 0\<rparr>
     = (Resolved (), \<lparr>errorMessage = [], invoked = 0\<rparr>)"
proof -
  let ?vt = "[''onBlur'', ''onChange'']"
  let ?s = "\<lparr>errorMessage = ''old message'', invoked = 0\<rparr>"
  let ?r1 = "[\<lambda>v a. Promise (Fulfils (Str ''too short''))] :: (prim, unit) rule list"
  let ?r2 = "[\<lambda>v a. Promise (Fulfils (Bool True)),
              \<lambda>v a. Promise (Fulfils (Str ''too short''))] :: (prim, unit) rule list"
  have a: "validateWithTrigger ?vt ''onInput'' (RuleArray ?r1) (Str []) () [0] ?s
             = (Resolved (), ?s)"
    using validateWithTrigger_spec
      [of "''onInput''" ?vt "RuleArray ?r1" "Str []" "()" "[0]" ?s ?s "Resolved True" "[]"
          "[]" Null "[]"]
    by simp
  have h: "''onChange'' \<in> set ?vt"
    "map (\<lambda>rule. awaited (rule (Str []) ())) ?r2 = map Some ([Bool True] @ Str ''too short'' # [])"
    "list_all (\<lambda>res. res = Bool True) [Bool True]" "Str ''too short'' \<noteq> Bool True"
    "distinct [1, 0::nat]" "set [1, 0::nat] = {0..<length ?r2}"
    by (auto simp: awaited_def)
  have b: "validateWithTrigger ?vt ''onChange'' (RuleArray ?r2) (Str []) () [1, 0] ?s
             = (Resolved (), \<lparr>errorMessage = ''too short'', invoked = 2\<rparr>)"
    using h validateWithTrigger_spec
      [of "''onChange''" ?vt "RuleArray ?r2" "Str []" "()" "[1, 0]" ?s ?s "Resolved True" ?r2
          "[Bool True]" "Str ''too short''" "[]"]
    by simp
  have v: "validate (RuleArray []) (Str []) () [] ?s = (Resolved True, ?s)"
    by (simp add: validate_def)
  have c: "validateWithTrigger ?vt ''onChange'' (RuleArray []) (Str []) () [] ?s
             = (Resolved (), \<lparr>errorMessage = [], invoked = 0\<rparr>)"
    using h(1) v validateWithTrigger_spec
      [of "''onChange''" ?vt "RuleArray []" "Str []" "()" "[]" ?s ?s "Resolved True" "[]"
          "[]" Null "[]"]
    by simp
  from a b c show ?thesis by simp
qed

text \<open>
  Claim C7. If a rule of the list throws or its promise rejects, \<open>validate\<close> rejects and
  \<open>errorMessage\<close> is what it was before the run. A rule that throws ends the run at
  once with its exception: the rules after it are not called. When no rule throws, the
  run is rejected with the reason of the first promise to reject in completion order,
  without waiting for the others, and every rule has been called once (no retry).
  Every rejection of \<open>validate\<close> leaves \<open>errorMessage\<close> unchanged, and
  \<open>validateWithTrigger\<close> passes the rejection on with the state as \<open>validate\<close> left it.
\<close>

theorem validate_rejection_propagates:
  "((\<exists>rule\<in>set rs. fails (rule value apis)) \<and> distinct order \<and>
    set order = {0..<length rs} \<longrightarrow>
      (\<exists>e s'. validate (RuleArray rs) value apis order s = (Rejected e, s') \<and>
              errorMessage s' = errorMessage s)) \<and>
   (map (\<lambda>rule. promised (rule value apis)) pre = map Some ps \<and> rule value apis = Throws e \<longrightarrow>
      validate (RuleArray (pre @ rule # post)) value apis order s =
        (Rejected e, s\<lparr>invoked := invoked s + length pre + 1\<rparr>)) \<and>
   (map (\<lambda>rule. promised (rule value apis)) rs = map Some promises \<and>
    order = before @ i # after \<and> distinct order \<and> set order = {0..<length rs} \<and>
    promises ! i = Rejects e \<and> list_all (\<lambda>j. \<not> is_rejected (promises ! j)) before \<longrightarrow>
      validate (RuleArray rs) value apis order s =
        (Rejected e, s\<lparr>invoked := invoked s + length rs\<rparr>)) \<and>
   (validate rules value apis order s = (Rejected e, s') \<longrightarrow>
      errorMessage s' = errorMessage s) \<and>
   (trigger \<in> set validateTrigger \<and> validate rules value apis order s = (Rejected e, s') \<longrightarrow>
      validateWithTrigger validateTrigger trigger rules value apis order s = (Rejected e, s'))"
proof -
  have a: "(\<exists>rule\<in>set rs. fails (rule value apis)) \<and> distinct order \<and>
    set order = {0..<length rs} \<longrightarrow>
      (\<exists>e s'. validate (RuleArray rs) value apis order s = (Rejected e, s') \<and>
              errorMessage s' = errorMessage s)"
    using validate_some_fails [of rs "value" apis order s] by blast
  have b: "map (\<lambda>rule. promised (rule value apis)) pre = map Some ps \<and> rule value apis = Throws e \<longrightarrow>
      validate (RuleArray (pre @ rule # post)) value apis order s =
        (Rejected e, s\<lparr>invoked := invoked s + length pre + 1\<rparr>)"
    using map_rules_throws [of "value" apis pre ps rule e post s]
    by (auto simp: validate_def)
  have c: "map (\<lambda>rule. promised (rule value apis)) rs = map Some promises \<and>
    order = before @ i # after \<and> distinct order \<and> set order = {0..<length rs} \<and>
    promises ! i = Rejects e \<and> list_all (\<lambda>j. \<not> is_rejected (promises ! j)) before \<longrightarrow>
      validate (RuleArray rs) value apis order s =
        (Rejected e, s\<lparr>invoked := invoked s + length rs\<rparr>)"
  proof (intro impI, elim conjE)
    assume h: "map (\<lambda>rule. promised (rule value apis)) rs = map Some promises"
      "order = before @ i # after" "distinct order" "set order = {0..<length rs}"
      "promises ! i = Rejects e" "list_all (\<lambda>j. \<not> is_rejected (promises ! j)) before"
    have len: "length promises = length rs" using h(1) by (metis length_map)
    have ne: "rs \<noteq> []" using h(2,4) by auto
    have "promise_all promises order = Some (Inl e)"
      using h len by (intro promise_all_rejected [of _ before i after]) (auto simp: list_all_iff)
    with map_rules_promised [OF h(1), of s] ne
    show "validate (RuleArray rs) value apis order s =
        (Rejected e, s\<lparr>invoked := invoked s + length rs\<rparr>)"
      by (simp add: validate_def)
  qed
  have d: "validate rules value apis order s = (Rejected e, s') \<longrightarrow>
      errorMessage s' = errorMessage s"
    using validate_errorMessage_unless_false [of rules "value" apis order s "Rejected e" s']
    by simp
  have e: "trigger \<in> set validateTrigger \<and> validate rules value apis order s = (Rejected e, s') \<longrightarrow>
      validateWithTrigger validateTrigger trigger rules value apis order s = (Rejected e, s')"
    by (simp add: validateWithTrigger_def)
  from a b c d e show ?thesis by blast
qed

theorem validate_rejection_propagates_witness:
  "validate (RuleArray [\<lambda>v a. Promise (Fulfils (Str ''bad'')),
                        \<lambda>v a. Throws TypeError,
                        \<lambda>v a. Promise (Fulfils (Bool True))]) (Str []) () [0, 1, 2]
       \<lparr>errorMessage = ''old message'', invoked = 0\<rparr>
     = (Rejected TypeError, \<lparr>errorMessage = ''old message'', invoked = 2\<rparr>) \<and>
   validate (RuleArray [\<lambda>v a. Promise (Fulfils (Str ''bad'')),
                        \<lambda>v a. Promise (Rejects (Thrown (Str ''first''))),
                        \<lambda>v a. Promise (Rejects (Thrown (Str ''second'')))]) (Str []) () [0, 2, 1]
       \<lparr>errorMessage = ''old message'', invoked = 0\<rparr>
     = (Rejected (Thrown (Str ''second'')), \<lparr>errorMessage = ''old message'', invoked = 3\<rparr>) \<and>
   validateWithTrigger [''onBlur''] ''onBlur''
       (RuleArray [\<lambda>v a. Promise (Fulfils (Str ''bad'')),
                   \<lambda>v a. Promise (Rejects (Thrown (Str ''first''))),
                   \<lambda>v a. Promise (Rejects (Thrown (Str ''second'')))]) (Str []) () [0, 2, 1]
       \<lparr>errorMessage = ''old message'', invoked = 0\<rparr>
     = (Rejected (Thrown (Str ''second'')), \<lparr>errorMessage = ''old message'', invoked = 3\<rparr>)"
proof -
  let ?s = "\<lparr>errorMessage = ''old message'', invoked = 0\<rparr>"
  let ?pre = "[\<lambda>v a. Promise (Fulfils (Str ''bad''))] :: (prim, unit) rule list"
  let ?post = "[\<lambda>v a. Promise (Fulfils (Bool True))] :: (prim, unit) rule list"
  let ?thrower = "(\<lambda>v a. Throws TypeError) :: (prim, unit) rule"
  let ?rs = "[\<lambda>v a. Promise (Fulfils (Str ''bad'')),
              \<lambda>v a. Promise (Rejects (Thrown (Str ''first''))),
              \<lambda>v a. Promise (Rejects (Thrown (Str ''second'')))] :: (prim, unit) rule list"
  let ?promises = "[Fulfils (Str ''bad''), Rejects (Thrown (Str ''first'')),
                    Rejects (Thrown (Str ''second''))]"
  have h1: "map (\<lambda>rule. promised (rule (Str []) ())) ?pre = map Some [Fulfils (Str ''bad'')]"
    "?thrower (Str []) () = Throws TypeError"
    by (simp_all add: promised_def)
  have a: "validate (RuleArray (?pre @ ?thrower # ?post)) (Str []) () [0, 1, 2] ?s
             = (Rejected TypeError, \<lparr>errorMessage = ''old message'', invoked = 2\<rparr>)"
    using h1 validate_rejection_propagates
      [of "[]" "Str []" "()" "[0, 1, 2]" ?s ?pre "[Fulfils (Str ''bad'')]" ?thrower TypeError
          ?post "[]" "[]" 0 "[]" NotArray ?s "''onBlur''" "[]"]
    by simp
  have h2: "map (\<lambda>rule. promised (rule (Str []) ())) ?rs = map Some ?promises"
    "[0, 2, 1] = [0] @ 2 # [1::nat]" "distinct [0, 2, 1::nat]"
    "set [0, 2, 1::nat] = {0..<length ?rs}"
    "?promises ! 2 = Rejects (Thrown (Str ''second''))"
    "list_all (\<lambda>j. \<not> is_rejected (?promises ! j)) [0]"
    by (auto simp: promised_def is_rejected_def)
  note t = validate_rejection_propagates
      [of ?rs "Str []" "()" "[0, 2, 1]" ?s "[]" "[]" ?thrower "Thrown (Str ''second'')"
          "[]" ?promises "[0]" 2 "[1]" "RuleArray ?rs"
          "\<lparr>errorMessage = ''old message'', invoked = 3\<rparr>" "''onBlur''" "[''onBlur'']"]
  from t h2 have b: "validate (RuleArray ?rs) (Str []) () [0, 2, 1] ?s
             = (Rejected (Thrown (Str ''second'')), \<lparr>errorMessage = ''old message'', invoked = 3\<rparr>)"
    by simp
  from t b have c: "validateWithTrigger [''onBlur''] ''onBlur'' (RuleArray ?rs) (Str []) () [0, 2, 1] ?s
             = (Rejected (Thrown (Str ''second'')), \<lparr>errorMessage = ''old message'', invoked = 3\<rparr>)"
    by simp
  from a b c show ?thesis by simp
qed

section \<open>Properties of call and useVModel\<close>

lemma Object_is_refl [simp]: "Object_is v v"
  by (cases v) simp_all

lemma Object_is_sym: "Object_is a b \<Longrightarrow> Object_is b a"
  by (cases a; cases b) simp_all

lemma Object_is_trans: "Object_is a b \<Longrightarrow> Object_is b c \<Longrightarrow> Object_is a c"
  by (cases a; cases b; cases c) simp_all

lemma hasChanged_seen: "hasChanged v a \<Longrightarrow> Object_is a b \<Longrightarrow> hasChanged v b"
  unfolding hasChanged_def using Object_is_trans Object_is_sym by blast

lemma map_call_returns:
  "list_all (returns beh args) fs \<Longrightarrow>
   \<exists>rs. map_call beh (map Fun fs) args cs = (Inr rs, cs @ map (\<lambda>f. (f, args)) fs)"
proof (induction fs arbitrary: cs)
  case Nil
  then show ?case by simp
next
  case (Cons f fs)
  from Cons.prems have hd: "returns beh args f" and rest: "list_all (returns beh args) fs"
    by simp_all
  from hd obtain r where r: "beh f args = Inr r"
    by (auto simp: returns_def split: sum.splits)
  from Cons.IH[OF rest, of "cs @ [(f, args)]"] r show ?case by auto
qed

lemma map_call_prefix:
  "\<exists>n\<le>length fs. snd (map_call beh (map Fun fs) args cs) =
     cs @ map (\<lambda>f. (f, args)) (take n fs)"
proof (induction fs arbitrary: cs)
  case Nil
  then show ?case by simp
next
  case (Cons f fs)
  show ?case
  proof (cases "beh f args")
    case (Inl e)
    then have "snd (map_call beh (map Fun (f # fs)) args cs) =
        cs @ map (\<lambda>f. (f, args)) (take 1 (f # fs))"
      by simp
    then show ?thesis by (intro exI [of _ 1]) simp
  next
    case (Inr r)
    from Cons.IH [of "cs @ [(f, args)]"] obtain n where n: "n \<le> length fs"
      "snd (map_call beh (map Fun fs) args (cs @ [(f, args)])) =
         (cs @ [(f, args)]) @ map (\<lambda>f. (f, args)) (take n fs)"
      by blast
    obtain res cs' where m: "map_call beh (map Fun fs) args (cs @ [(f, args)]) = (res, cs')"
      by (cases "map_call beh (map Fun fs) args (cs @ [(f, args)])")
    with n(2) have "cs' = cs @ (f, args) # map (\<lambda>f. (f, args)) (take n fs)" by simp
    with Inr m have "snd (map_call beh (map Fun (f # fs)) args cs) =
        cs @ map (\<lambda>f. (f, args)) (take (Suc n) (f # fs))"
      by (cases res) simp_all
    with n(1) show ?thesis by (intro exI [of _ "Suc n"]) simp
  qed
qed

lemma notify_arr_prefix:
  "emit options = None \<Longrightarrow> ps (event key options) = Arr a (map Fun fs) \<Longrightarrow>
   \<exists>n\<le>length fs. snd (notify beh ps key options v cs) =
     cs @ map (\<lambda>f. (f, [v])) (take n fs)"
  using map_call_prefix [of fs beh "[v]" cs]
  by (auto simp: notify_def call_def split: prod.splits sum.splits)

lemma notify_emit:
  "emit options = Some e \<Longrightarrow>
   snd (notify beh ps key options v cs) = cs @ [(e, [Prim (Str (event key options)), v])]"
  by (simp add: notify_def split: sum.splits)

lemma notify_fun:
  "emit options = None \<Longrightarrow> ps (event key options) = Fun f \<Longrightarrow>
   snd (notify beh ps key options v cs) = cs @ [(f, [v])]"
  by (simp add: notify_def call_def split: sum.splits)

lemma notify_arr:
  "emit options = None \<Longrightarrow> ps (event key options) = Arr a (map Fun fs) \<Longrightarrow>
   list_all (returns beh [v]) fs \<Longrightarrow>
   notify beh ps key options v cs = (Inr (), cs @ map (\<lambda>f. (f, [v])) fs)"
  using map_call_returns [of beh "[v]" fs cs] by (auto simp: notify_def call_def)

lemma notify_absent:
  "emit options = None \<Longrightarrow> nullish (ps (event key options)) \<Longrightarrow>
   notify beh ps key options v cs = (Inr (), cs)"
  by (auto simp: notify_def call_def nullish_def)


lemma toRaw_idem [simp]: "toRaw (toRaw v) = toRaw v"
  by (cases v) simp_all

lemma toReactive_toRaw [simp]: "toReactive (toRaw v) = toReactive v"
  by (cases v) simp_all

lemma Object_is_toReactive:
  "Object_is (toReactive a) (toReactive b) = Object_is (toRaw a) (toRaw b)"
  by (cases a; cases b) simp_all

lemma hasChanged_raw:
  "toRaw w = w \<Longrightarrow> hasChanged (toRaw v) w = hasChanged (toReactive v) (toReactive w)"
  unfolding hasChanged_def using Object_is_toReactive [of v w] by simp

lemma sync_job_proxy_None: "proxy st = None \<Longrightarrow> sync_job key options st = (st, False)"
  by (simp add: sync_job_def)

lemma notify_job_proxy_None: "proxy st = None \<Longrightarrow> notify_job beh key options st = st"
  by (simp add: notify_job_def)

lemma flushJobs_proxy_None: "proxy st = None \<Longrightarrow> flushJobs beh key options q st = st"
  by (induction beh key options q st rule: flushJobs.induct)
     (simp_all add: sync_job_proxy_None notify_job_proxy_None)

lemma queue_sync_job [simp]: "queue (fst (sync_job key options st)) = queue st"
  by (simp add: sync_job_def split: option.splits prod.splits)

lemma queue_notify_job [simp]: "queue (notify_job beh key options st) = queue st"
  by (simp add: notify_job_def split: option.splits)

lemma queue_flushJobs [simp]: "queue (flushJobs beh key options q st) = queue st"
  by (induction beh key options q st rule: flushJobs.induct) simp_all

lemma step_proxy_None:
  "proxy st = None \<Longrightarrow> proxy (step beh key options a st) = None"
  by (cases a)
     (auto simp: set_prop_def set_value_def flush_def flushJobs_proxy_None split: prod.splits)

lemma reachable_eager:
  "reachable beh ps key options st \<Longrightarrow> \<not> is_passive options \<Longrightarrow> proxy st = None"
  by (induction rule: reachable.induct) (simp_all add: useVModel_def step_proxy_None)

lemma consistent_sync_job:
  assumes "consistent key (SyncJob # q) st"
  shows "consistent key (if snd (sync_job key options st) then queueJob NotifyJob q else q)
           (fst (sync_job key options st))"
  using assms
  by (auto simp: consistent_def sync_job_def set_ref_def queueJob_def hasChanged_def Let_def
           split: option.splits)

lemma consistent_notify_job:
  assumes "consistent key (NotifyJob # q) st"
  shows "consistent key q (notify_job beh key options st)"
  using assms
  by (auto simp: consistent_def notify_job_def hasChanged_def split: option.splits)

lemma consistent_flushJobs:
  "consistent key q st \<Longrightarrow> consistent key [] (flushJobs beh key options q st)"
proof (induction beh key options q st rule: flushJobs.induct)
  case (1 beh key options st)
  then show ?case by simp
next
  case (2 beh key options q st)
  from consistent_sync_job [OF 2(2)] 2(1) show ?case by simp
next
  case (3 beh key options q st)
  from consistent_notify_job [OF 3(2)] 3(1) show ?case by simp
qed

lemma consistent_queue_field: "consistent key q (st\<lparr>queue := q'\<rparr>) = consistent key q st"
  by (cases "proxy st") (simp_all add: consistent_def)

lemma consistent_step:
  assumes "consistent key (queue st) st"
  shows "consistent key (queue (step beh key options a st)) (step beh key options a st)"
proof (cases a)
  case (SetProp k v)
  with assms show ?thesis
    by (auto simp: consistent_def set_prop_def queueJob_def hasChanged_def
             split: option.splits intro: Object_is_trans)
next
  case (Write v)
  with assms show ?thesis
    by (auto simp: consistent_def set_value_def set_ref_def queueJob_def Let_def
             split: option.splits)
next
  case Flush
  have "consistent key (queue st) (st\<lparr>queue := []\<rparr>)"
    using assms by (simp add: consistent_queue_field)
  then have "consistent key [] (flushJobs beh key options (queue st) (st\<lparr>queue := []\<rparr>))"
    by (rule consistent_flushJobs)
  with Flush show ?thesis by (simp add: flush_def)
qed

lemma reachable_buffered:
  "reachable beh ps key options st \<Longrightarrow> is_passive options \<Longrightarrow> consistent key (queue st) st"
proof (induction rule: reachable.induct)
  case created
  then show ?case by (simp add: useVModel_def consistent_def)
next
  case (stepped st a)
  then show ?case by (simp add: consistent_step)
qed

lemma eager_set_value:
  "proxy st = None \<Longrightarrow>
   set_value beh key options v st =
     (fst (notify beh (props st) key options v (calls st)),
      st\<lparr>calls := snd (notify beh (props st) key options v (calls st))\<rparr>)"
  by (simp add: set_value_def split: prod.splits)

lemmas vm_eval = useVModel_def is_passive_def event_def getValue_def nullish_def
  set_prop_def set_value_def flush_def set_ref_def sync_job_def notify_job_def queueJob_def
  hasChanged_def notify_def call_def get_value_def returns_def Let_def

lemma settled_ref:
  assumes "consistent key [] st"
  obtains r where "proxy st = Some r" "cell r = toReactive (rawValue r)"
    "toRaw (rawValue r) = rawValue r" "Object_is (props st key) (seen_source r)"
    "Object_is (cell r) (seen_cell r)"
  using assms by (auto simp: consistent_def split: option.splits)

lemma set_prop_flush_changed:
  assumes "consistent key [] st" "queue st = []" "hasChanged v (props st key)"
    and "hasChanged (toReactive (getValue ((props st)(key := v)) key options))
           (get_value key options st)"
  shows "get_value key options (flush beh key options (set_prop key key v st)) =
           toReactive (getValue ((props st)(key := v)) key options)"
    and "calls (flush beh key options (set_prop key key v st)) =
           snd (notify beh ((props st)(key := v)) key options
                  (toReactive (getValue ((props st)(key := v)) key options)) (calls st))"
proof -
  from assms(1) obtain r where r: "proxy st = Some r" "cell r = toReactive (rawValue r)"
    "toRaw (rawValue r) = rawValue r" "Object_is (props st key) (seen_source r)"
    "Object_is (cell r) (seen_cell r)"
    by (rule settled_ref)
  let ?g = "getValue ((props st)(key := v)) key options"
  have a: "hasChanged v (seen_source r)" using assms(3) r(4) by (rule hasChanged_seen)
  from assms(4) r have b': "hasChanged (toReactive ?g) (toReactive (rawValue r))"
    by (simp add: get_value_def)
  then have b: "hasChanged (toRaw ?g) (rawValue r)" using r(3) by (simp add: hasChanged_raw)
  from assms(4) r have "hasChanged (toReactive ?g) (cell r)" by (simp add: get_value_def)
  then have c: "hasChanged (toReactive ?g) (seen_cell r)" using r(5) by (rule hasChanged_seen)
  from r a b c assms(2,3)
  show "get_value key options (flush beh key options (set_prop key key v st)) = toReactive ?g"
    "calls (flush beh key options (set_prop key key v st)) =
           snd (notify beh ((props st)(key := v)) key options (toReactive ?g) (calls st))"
    by (simp_all add: set_prop_def flush_def queueJob_def sync_job_def set_ref_def
          notify_job_def get_value_def Let_def)
qed

lemma set_prop_flush_same:
  assumes "consistent key [] st" "queue st = []"
    and "\<not> hasChanged (toReactive (getValue ((props st)(key := v)) key options))
             (get_value key options st)"
  shows "get_value key options (flush beh key options (set_prop key key v st)) =
           get_value key options st"
    and "calls (flush beh key options (set_prop key key v st)) = calls st"
proof -
  from assms(1) obtain r where r: "proxy st = Some r" "cell r = toReactive (rawValue r)"
    "toRaw (rawValue r) = rawValue r" "Object_is (props st key) (seen_source r)"
    "Object_is (cell r) (seen_cell r)"
    by (rule settled_ref)
  let ?g = "getValue ((props st)(key := v)) key options"
  from assms(3) r have "\<not> hasChanged (toReactive ?g) (toReactive (rawValue r))"
    by (simp add: get_value_def)
  then have b: "\<not> hasChanged (toRaw ?g) (rawValue r)" using r(3) by (simp add: hasChanged_raw)
  have c: "\<not> hasChanged (cell r) (seen_cell r)" using r(5) by (simp add: hasChanged_def)
  from r b c assms(2)
  show "get_value key options (flush beh key options (set_prop key key v st)) =
           get_value key options st"
    "calls (flush beh key options (set_prop key key v st)) = calls st"
    by (simp_all add: set_prop_def flush_def queueJob_def sync_job_def set_ref_def
          notify_job_def get_value_def Let_def)
qed

lemma write_changed:
  assumes "consistent key [] st" "queue st = []"
    and "hasChanged (toReactive v) (get_value key options st)"
  shows "get_value key options (step beh key options (Write v) st) = toReactive v"
    and "calls (step beh key options (Write v) st) = calls st"
    and "calls (flush beh key options (step beh key options (Write v) st)) =
           snd (notify beh (props st) key options (toReactive v) (calls st))"
    and "get_value key options (flush beh key options (step beh key options (Write v) st)) =
           toReactive v"
proof -
  from assms(1) obtain r where r: "proxy st = Some r" "cell r = toReactive (rawValue r)"
    "toRaw (rawValue r) = rawValue r" "Object_is (props st key) (seen_source r)"
    "Object_is (cell r) (seen_cell r)"
    by (rule settled_ref)
  from assms(3) r have b': "hasChanged (toReactive v) (toReactive (rawValue r))"
    by (simp add: get_value_def)
  then have b: "hasChanged (toRaw v) (rawValue r)" using r(3) by (simp add: hasChanged_raw)
  from assms(3) r have "hasChanged (toReactive v) (cell r)" by (simp add: get_value_def)
  then have c: "hasChanged (toReactive v) (seen_cell r)" using r(5) by (rule hasChanged_seen)
  from r b c assms(2)
  show "get_value key options (step beh key options (Write v) st) = toReactive v"
    "calls (step beh key options (Write v) st) = calls st"
    "calls (flush beh key options (step beh key options (Write v) st)) =
           snd (notify beh (props st) key options (toReactive v) (calls st))"
    "get_value key options (flush beh key options (step beh key options (Write v) st)) =
           toReactive v"
    by (simp_all add: set_value_def flush_def queueJob_def set_ref_def
          notify_job_def get_value_def Let_def)
qed

lemma write_same:
  assumes "consistent key [] st"
    and "\<not> hasChanged (toReactive v) (get_value key options st)"
  shows "step beh key options (Write v) st = st"
proof -
  from assms(1) obtain r where r: "proxy st = Some r" "cell r = toReactive (rawValue r)"
    "toRaw (rawValue r) = rawValue r" "Object_is (props st key) (seen_source r)"
    "Object_is (cell r) (seen_cell r)"
    by (rule settled_ref)
  from assms(2) r have "\<not> hasChanged (toReactive v) (toReactive (rawValue r))"
    by (simp add: get_value_def)
  then have "\<not> hasChanged (toRaw v) (rawValue r)" using r(3) by (simp add: hasChanged_raw)
  with r show ?thesis by (simp add: set_value_def set_ref_def Let_def)
qed

lemma writes_snoc:
  "writes beh key options (vs @ [v]) st =
     step beh key options (Write v) (writes beh key options vs st)"
  by (simp add: writes_def)

lemma reachable_writes:
  "reachable beh ps key options st \<Longrightarrow> reachable beh ps key options (writes beh key options vs st)"
proof (induction vs rule: rev_induct)
  case Nil
  then show ?case by (simp add: writes_def)
next
  case (snoc v vs)
  then show ?case unfolding writes_snoc by (intro reachable.stepped) simp
qed

lemma write_frame:
  assumes "proxy st = Some r"
  shows "\<exists>r'. proxy (step beh key options (Write v) st) = Some r' \<and>
           seen_source r' = seen_source r \<and> seen_cell r' = seen_cell r"
    and "props (step beh key options (Write v) st) = props st"
    and "calls (step beh key options (Write v) st) = calls st"
    and "queue (step beh key options (Write v) st) = queue st \<or>
         queue (step beh key options (Write v) st) = queueJob NotifyJob (queue st)"
  using assms by (simp_all add: set_value_def set_ref_def Let_def)

lemma queueJob_idem: "queueJob j (queueJob j q) = queueJob j q"
  by (simp add: queueJob_def)

lemma writes_frame:
  assumes "proxy st = Some r"
  shows "(\<exists>r'. proxy (writes beh key options vs st) = Some r' \<and>
            seen_source r' = seen_source r \<and> seen_cell r' = seen_cell r) \<and>
         props (writes beh key options vs st) = props st \<and>
         calls (writes beh key options vs st) = calls st \<and>
         (queue (writes beh key options vs st) = queue st \<or>
          queue (writes beh key options vs st) = queueJob NotifyJob (queue st))"
proof (induction vs rule: rev_induct)
  case Nil
  with assms show ?case by (simp add: writes_def)
next
  case (snoc v vs)
  let ?s = "writes beh key options vs st"
  from snoc obtain r' where r': "proxy ?s = Some r'" "seen_source r' = seen_source r"
    "seen_cell r' = seen_cell r" by blast
  from write_frame [OF r'(1), of beh key options v] snoc r'(2,3)
  show ?case unfolding writes_snoc by (auto simp: queueJob_idem)
qed

lemma write_last:
  assumes "consistent key q st"
  shows "Object_is (get_value key options (step beh key options (Write v) st)) (toReactive v)"
proof -
  from assms obtain r where r: "proxy st = Some r" "cell r = toReactive (rawValue r)"
    "toRaw (rawValue r) = rawValue r"
    by (auto simp: consistent_def split: option.splits)
  show ?thesis
  proof (cases "hasChanged (toRaw v) (rawValue r)")
    case True
    with r show ?thesis by (simp add: set_value_def set_ref_def get_value_def Let_def)
  next
    case False
    then have "\<not> hasChanged (toReactive v) (toReactive (rawValue r))"
      using r(3) by (simp add: hasChanged_raw)
    then have "Object_is (toReactive (rawValue r)) (toReactive v)"
      by (auto simp: hasChanged_def intro: Object_is_sym)
    with False r show ?thesis by (simp add: set_value_def set_ref_def get_value_def Let_def)
  qed
qed

lemma writes_flush:
  assumes "consistent key [] st" "queue st = []"
    and st1: "consistent key (queue (writes beh key options vs st)) (writes beh key options vs st)"
  shows "calls (flush beh key options (writes beh key options vs st)) =
           (if hasChanged (get_value key options (writes beh key options vs st))
                 (get_value key options st)
            then snd (notify beh (props st) key options
                       (get_value key options (writes beh key options vs st)) (calls st))
            else calls st)"
    and "get_value key options (flush beh key options (writes beh key options vs st)) =
           get_value key options (writes beh key options vs st)"
proof -
  let ?s = "writes beh key options vs st"
  from assms(1) obtain r where r: "proxy st = Some r" "cell r = toReactive (rawValue r)"
    "toRaw (rawValue r) = rawValue r" "Object_is (props st key) (seen_source r)"
    "Object_is (cell r) (seen_cell r)"
    by (rule settled_ref)
  from writes_frame [OF r(1), of beh key options vs] obtain r' where
    r': "proxy ?s = Some r'" "seen_source r' = seen_source r" "seen_cell r' = seen_cell r"
    and fr: "props ?s = props st" "calls ?s = calls st"
    and q: "queue ?s = [] \<or> queue ?s = [NotifyJob]"
    using assms(2) by (auto simp: queueJob_def)
  have eq: "hasChanged (cell r') (cell r) = hasChanged (cell r') (seen_cell r')"
    unfolding hasChanged_def r'(3) using r(5) Object_is_trans Object_is_sym by blast
  from q show "calls (flush beh key options ?s) =
           (if hasChanged (get_value key options ?s) (get_value key options st)
            then snd (notify beh (props st) key options (get_value key options ?s) (calls st))
            else calls st)"
  proof
    assume e: "queue ?s = []"
    with st1 r'(1) have "Object_is (cell r') (seen_cell r')"
      unfolding consistent_def by auto
    then have "\<not> hasChanged (cell r') (cell r)" unfolding eq by (simp add: hasChanged_def)
    with e r r' fr show ?thesis by (simp add: flush_def get_value_def)
  next
    assume e: "queue ?s = [NotifyJob]"
    with r r' fr eq show ?thesis by (simp add: flush_def notify_job_def get_value_def)
  qed
  from q show "get_value key options (flush beh key options ?s) = get_value key options ?s"
  proof
    assume "queue ?s = []"
    with r'(1) show ?thesis by (simp add: flush_def get_value_def)
  next
    assume "queue ?s = [NotifyJob]"
    with r' show ?thesis by (simp add: flush_def notify_job_def get_value_def)
  qed
qed

lemma calls_sync_job [simp]: "calls (fst (sync_job key options st)) = calls st"
  by (simp add: sync_job_def split: option.splits prod.splits)

lemma notify_emit_all:
  assumes "emit options = Some e"
    and "list_all (\<lambda>c. \<exists>x. c = (e, [Prim (Str (event key options)), x])) cs"
  shows "list_all (\<lambda>c. \<exists>x. c = (e, [Prim (Str (event key options)), x]))
           (snd (notify beh ps key options v cs))"
  using assms by (simp add: notify_emit)

lemma flushJobs_emit_all:
  "emit options = Some e \<Longrightarrow>
   list_all (\<lambda>c. \<exists>x. c = (e, [Prim (Str (event key options)), x])) (calls st) \<Longrightarrow>
   list_all (\<lambda>c. \<exists>x. c = (e, [Prim (Str (event key options)), x]))
     (calls (flushJobs beh key options q st))"
proof (induction beh key options q st rule: flushJobs.induct)
  case (1 beh key options st)
  then show ?case by simp
next
  case (2 beh key options q st)
  then show ?case by simp
next
  case (3 beh key options q st)
  have "list_all (\<lambda>c. \<exists>x. c = (e, [Prim (Str (event key options)), x]))
          (calls (notify_job beh key options st))"
    using 3(3) notify_emit_all [OF 3(2), of key]
    by (auto simp: notify_job_def split: option.splits)
  with 3(1) [OF 3(2)] show ?case by simp
qed

lemma step_emit_all:
  assumes "emit options = Some e"
    and "list_all (\<lambda>c. \<exists>x. c = (e, [Prim (Str (event key options)), x])) (calls st)"
  shows "list_all (\<lambda>c. \<exists>x. c = (e, [Prim (Str (event key options)), x]))
           (calls (step beh key options a st))"
proof (cases a)
  case (SetProp k v)
  with assms(2) show ?thesis by (simp add: set_prop_def)
next
  case (Write v)
  with assms notify_emit_all [OF assms, of beh "props st" v] show ?thesis
    by (auto simp: set_value_def split: option.splits prod.splits)
next
  case Flush
  with flushJobs_emit_all [OF assms(1), of key "st\<lparr>queue := []\<rparr>" beh "queue st"] assms(2)
  show ?thesis by (simp add: flush_def)
qed

lemma reachable_emit_all:
  assumes "emit options = Some e"
  shows "reachable beh ps key options st \<Longrightarrow>
         list_all (\<lambda>c. \<exists>x. c = (e, [Prim (Str (event key options)), x])) (calls st)"
proof (induction rule: reachable.induct)
  case created
  then show ?case by (simp add: useVModel_def)
next
  case (stepped st a)
  then show ?case using step_emit_all [OF assms] by simp
qed

text \<open>
  Claim C5. In eager mode (\<open>passive: false\<close>) no local cell exists. Writing \<open>v\<close> through
  the returned cell calls the supplied \<open>emit\<close> exactly once, with \<open>(event, v)\<close>. When no
  \<open>emit\<close> was supplied, the function found at \<open>props[event]\<close> is called with \<open>v\<close>, or,
  when an array of functions is found there, each of them is called with \<open>v\<close> in array
  order (each returning normally; in any case the functions called are an initial
  segment of the array, each called once, in array order); when nothing is found
  there, nothing is called. In every case the write changes nothing but the record of
  calls. Reading the cell yields
  \<open>props[key]\<close> when that is neither \<open>null\<close> nor \<open>undefined\<close>, and \<open>defaultValue\<close> otherwise.
\<close>

theorem eager_mode_spec:
  assumes "reachable beh ps key options st" and "passive options = Some False"
  shows "proxy st = None \<and>
     get_value key options st =
       (if nullish (props st key) then defaultValue options else props st key) \<and>
     (emit options = Some e \<longrightarrow>
        snd (set_value beh key options v st) =
          st\<lparr>calls := calls st @ [(e, [Prim (Str (event key options)), v])]\<rparr>) \<and>
     (emit options = None \<and> props st (event key options) = Fun f \<longrightarrow>
        snd (set_value beh key options v st) = st\<lparr>calls := calls st @ [(f, [v])]\<rparr>) \<and>
     (emit options = None \<and> props st (event key options) = Arr a (map Fun fs) \<and>
      list_all (returns beh [v]) fs \<longrightarrow>
        set_value beh key options v st =
          (Inr (), st\<lparr>calls := calls st @ map (\<lambda>f. (f, [v])) fs\<rparr>)) \<and>
     (emit options = None \<and> props st (event key options) = Arr a (map Fun fs) \<longrightarrow>
        (\<exists>n\<le>length fs. snd (set_value beh key options v st) =
           st\<lparr>calls := calls st @ map (\<lambda>f. (f, [v])) (take n fs)\<rparr>)) \<and>
     (emit options = None \<and> nullish (props st (event key options)) \<longrightarrow>
        set_value beh key options v st = (Inr (), st))"
proof -
  have np: "\<not> is_passive options" using assms(2) by (simp add: is_passive_def)
  with assms(1) have p: "proxy st = None" by (rule reachable_eager)
  have g: "get_value key options st =
       (if nullish (props st key) then defaultValue options else props st key)"
    using p by (simp add: get_value_def getValue_def)
  note sv = eager_set_value [OF p, of beh key options v]
  have a: "emit options = Some e \<longrightarrow>
        snd (set_value beh key options v st) =
          st\<lparr>calls := calls st @ [(e, [Prim (Str (event key options)), v])]\<rparr>"
    using sv by (simp add: notify_emit)
  have b: "emit options = None \<and> props st (event key options) = Fun f \<longrightarrow>
        snd (set_value beh key options v st) = st\<lparr>calls := calls st @ [(f, [v])]\<rparr>"
    using sv by (simp add: notify_fun)
  have c: "emit options = None \<and> props st (event key options) = Arr a (map Fun fs) \<and>
      list_all (returns beh [v]) fs \<longrightarrow>
        set_value beh key options v st =
          (Inr (), st\<lparr>calls := calls st @ map (\<lambda>f. (f, [v])) fs\<rparr>)"
    using sv by (auto simp: notify_arr)
  have d: "emit options = None \<and> nullish (props st (event key options)) \<longrightarrow>
        set_value beh key options v st = (Inr (), st)"
    using sv by (auto simp: notify_absent)
  have c': "emit options = None \<and> props st (event key options) = Arr a (map Fun fs) \<longrightarrow>
        (\<exists>n\<le>length fs. snd (set_value beh key options v st) =
           st\<lparr>calls := calls st @ map (\<lambda>f. (f, [v])) (take n fs)\<rparr>)"
  proof (intro impI, elim conjE)
    assume h: "emit options = None" "props st (event key options) = Arr a (map Fun fs)"
    from h notify_arr_prefix [of options "props st" key a fs beh v "calls st"] obtain n where
      "n \<le> length fs" "snd (notify beh (props st) key options v (calls st)) =
         calls st @ map (\<lambda>f. (f, [v])) (take n fs)"
      by blast
    with sv show "\<exists>n\<le>length fs. snd (set_value beh key options v st) =
           st\<lparr>calls := calls st @ map (\<lambda>f. (f, [v])) (take n fs)\<rparr>"
      by auto
  qed
  from p g a b c c' d show ?thesis by blast
qed

theorem eager_mode_spec_witness:
  "snd (set_value (\<lambda>f args. Inr (Prim Undefined)) ''modelValue''
          \<lparr>passive = Some False, eventName = None, defaultValue = Prim (Num 5), emit = Some 7\<rparr>
          (Prim (Num 2))
          (useVModel ((\<lambda>k. Prim Undefined)(''modelValue'' := Prim (Num 1))) ''modelValue''
             \<lparr>passive = Some False, eventName = None, defaultValue = Prim (Num 5), emit = Some 7\<rparr>))
     = \<lparr>props = (\<lambda>k. Prim Undefined)(''modelValue'' := Prim (Num 1)), proxy = None, queue = [],
        calls = [(7, [Prim (Str ''onUpdate:modelValue''), Prim (Num 2)])]\<rparr> \<and>
   set_value (\<lambda>f args. Inr (Prim Undefined)) ''modelValue''
          \<lparr>passive = Some False, eventName = None, defaultValue = Prim (Num 5), emit = None\<rparr>
          (Prim (Num 2))
          (useVModel ((\<lambda>k. Prim Undefined)(''modelValue'' := Prim Null,
                        ''onUpdate:modelValue'' := Arr 0 [Fun 1, Fun 2])) ''modelValue''
             \<lparr>passive = Some False, eventName = None, defaultValue = Prim (Num 5), emit = None\<rparr>)
     = (Inr (),
        \<lparr>props = (\<lambda>k. Prim Undefined)(''modelValue'' := Prim Null,
                        ''onUpdate:modelValue'' := Arr 0 [Fun 1, Fun 2]), proxy = None, queue = [],
         calls = [(1, [Prim (Num 2)]), (2, [Prim (Num 2)])]\<rparr>) \<and>
   get_value ''modelValue''
          \<lparr>passive = Some False, eventName = None, defaultValue = Prim (Num 5), emit = None\<rparr>
          (useVModel ((\<lambda>k. Prim Undefined)(''modelValue'' := Prim Null,
                        ''onUpdate:modelValue'' := Arr 0 [Fun 1, Fun 2])) ''modelValue''
             \<lparr>passive = Some False, eventName = None, defaultValue = Prim (Num 5), emit = None\<rparr>)
     = Prim (Num 5)"
proof -
  let ?beh = "(\<lambda>f args. Inr (Prim Undefined)) :: behaviour"
  let ?oe = "\<lparr>passive = Some False, eventName = None, defaultValue = Prim (Num 5), emit = Some 7\<rparr>"
  let ?ol = "\<lparr>passive = Some False, eventName = None, defaultValue = Prim (Num 5), emit = None\<rparr>"
  let ?p1 = "(\<lambda>k. Prim Undefined)(''modelValue'' := Prim (Num 1))"
  let ?p2 = "(\<lambda>k. Prim Undefined)(''modelValue'' := Prim Null,
                        ''onUpdate:modelValue'' := Arr 0 [Fun 1, Fun 2])"
  have pe: "passive ?oe = Some False" and pl: "passive ?ol = Some False" by simp_all
  note t1 = eager_mode_spec [of ?beh ?p1 "''modelValue''" ?oe "useVModel ?p1 ''modelValue'' ?oe"
      7 "Prim (Num 2)" 0 0 "[]", OF reachable.created pe]
  note t2 = eager_mode_spec [of ?beh ?p2 "''modelValue''" ?ol "useVModel ?p2 ''modelValue'' ?ol"
      7 "Prim (Num 2)" 0 0 "[1, 2]", OF reachable.created pl]
  have a: "snd (set_value ?beh ''modelValue'' ?oe (Prim (Num 2)) (useVModel ?p1 ''modelValue'' ?oe))
     = \<lparr>props = ?p1, proxy = None, queue = [],
        calls = [(7, [Prim (Str ''onUpdate:modelValue''), Prim (Num 2)])]\<rparr>"
    using t1 by (simp add: useVModel_def is_passive_def event_def)
  have b: "set_value ?beh ''modelValue'' ?ol (Prim (Num 2)) (useVModel ?p2 ''modelValue'' ?ol)
     = (Inr (), \<lparr>props = ?p2, proxy = None, queue = [],
         calls = [(1, [Prim (Num 2)]), (2, [Prim (Num 2)])]\<rparr>)"
    using t2 by (simp add: useVModel_def is_passive_def event_def returns_def)
  have c: "get_value ''modelValue'' ?ol (useVModel ?p2 ''modelValue'' ?ol) = Prim (Num 5)"
    using t2 by (simp add: useVModel_def is_passive_def nullish_def)
  from a b c show ?thesis by simp
qed
text \<open>
  Claim C6, amended. In buffered mode (\<open>passive: true\<close>, the default) the watchers run
  when the framework flushes its queue, not inside a change. Take a binding with no
  watcher job waiting. Let the source property \<open>props[key]\<close> change from outside to \<open>v\<close>,
  and let \<open>r\<close> be the resolved value: \<open>v\<close>, or \<open>defaultValue\<close> when \<open>v\<close> is \<open>null\<close> or
  \<open>undefined\<close>. Nothing happens before the flush. At the flush, when \<open>r\<close> differs from
  the value of the cell, the cell becomes \<open>r\<close> (for an array, its reactive proxy) and
  exactly one outbound notification carrying the cell's new value is made; when \<open>r\<close> is
  the value of the cell, the cell stays as it is and no notification is made. A local
  write of \<open>v2\<close> that differs from the value of the cell stores \<open>v2\<close> (for an array, its
  reactive proxy) at once and makes no notification before the flush; the flush makes
  exactly one notification carrying the cell's value. A local write of the value the
  cell holds changes nothing. Several local writes before one flush make at most one
  notification: none before the flush, and at the flush one that carries the value of
  the cell, which is the last value written, when that differs from the value the cell
  had before the writes, and none otherwise. A notification, when \<open>emit\<close> was supplied,
  is one call of \<open>emit\<close> with the event name and the value.
\<close>

theorem buffered_mode_amended:
  assumes "reachable beh ps key options st" and "is_passive options" and "queue st = []"
  shows "(hasChanged v (props st key) \<and>
      hasChanged (toReactive (if nullish v then defaultValue options else v))
        (get_value key options st) \<longrightarrow>
        calls (step beh key options (SetProp key v) st) = calls st \<and>
        get_value key options (step beh key options (SetProp key v) st) =
          get_value key options st \<and>
        get_value key options
            (step beh key options Flush (step beh key options (SetProp key v) st)) =
          toReactive (if nullish v then defaultValue options else v) \<and>
        calls (step beh key options Flush (step beh key options (SetProp key v) st)) =
          snd (notify beh ((props st)(key := v)) key options
                 (toReactive (if nullish v then defaultValue options else v)) (calls st))) \<and>
     (\<not> hasChanged (toReactive (if nullish v then defaultValue options else v))
          (get_value key options st) \<longrightarrow>
        get_value key options
            (step beh key options Flush (step beh key options (SetProp key v) st)) =
          get_value key options st \<and>
        calls (step beh key options Flush (step beh key options (SetProp key v) st)) =
          calls st) \<and>
     (hasChanged (toReactive v2) (get_value key options st) \<longrightarrow>
        get_value key options (step beh key options (Write v2) st) = toReactive v2 \<and>
        calls (step beh key options (Write v2) st) = calls st \<and>
        calls (step beh key options Flush (step beh key options (Write v2) st)) =
          snd (notify beh (props st) key options (toReactive v2) (calls st))) \<and>
     (\<not> hasChanged (toReactive v2) (get_value key options st) \<longrightarrow>
        step beh key options (Write v2) st = st) \<and>
     (vs \<noteq> [] \<longrightarrow>
        calls (writes beh key options vs st) = calls st \<and>
        Object_is (get_value key options (writes beh key options vs st)) (toReactive (last vs)) \<and>
        calls (step beh key options Flush (writes beh key options vs st)) =
          (if hasChanged (get_value key options (writes beh key options vs st))
                (get_value key options st)
           then snd (notify beh (props st) key options
                      (get_value key options (writes beh key options vs st)) (calls st))
           else calls st)) \<and>
     (emit options = Some e \<longrightarrow>
        snd (notify beh ps' key options x cs) =
          cs @ [(e, [Prim (Str (event key options)), x])])"
proof -
  have c0: "consistent key (queue st) st" using assms(1,2) by (rule reachable_buffered)
  then have q: "consistent key [] st" using assms(3) by simp
  have g: "getValue ((props st)(key := v)) key options =
             (if nullish v then defaultValue options else v)"
    by (simp add: getValue_def)
  have pre: "calls (step beh key options (SetProp key v) st) = calls st"
    "get_value key options (step beh key options (SetProp key v) st) = get_value key options st"
    using q by (auto simp: set_prop_def get_value_def consistent_def getValue_def
                     split: option.splits)
  have a: "hasChanged v (props st key) \<and>
      hasChanged (toReactive (if nullish v then defaultValue options else v))
        (get_value key options st) \<longrightarrow>
        calls (step beh key options (SetProp key v) st) = calls st \<and>
        get_value key options (step beh key options (SetProp key v) st) =
          get_value key options st \<and>
        get_value key options
            (step beh key options Flush (step beh key options (SetProp key v) st)) =
          toReactive (if nullish v then defaultValue options else v) \<and>
        calls (step beh key options Flush (step beh key options (SetProp key v) st)) =
          snd (notify beh ((props st)(key := v)) key options
                 (toReactive (if nullish v then defaultValue options else v)) (calls st))"
    using set_prop_flush_changed [OF q assms(3), of v options beh] pre unfolding g by simp
  have b: "\<not> hasChanged (toReactive (if nullish v then defaultValue options else v))
          (get_value key options st) \<longrightarrow>
        get_value key options
            (step beh key options Flush (step beh key options (SetProp key v) st)) =
          get_value key options st \<and>
        calls (step beh key options Flush (step beh key options (SetProp key v) st)) =
          calls st"
    using set_prop_flush_same [OF q assms(3), of v options beh] unfolding g by simp
  have c: "hasChanged (toReactive v2) (get_value key options st) \<longrightarrow>
        get_value key options (step beh key options (Write v2) st) = toReactive v2 \<and>
        calls (step beh key options (Write v2) st) = calls st \<and>
        calls (step beh key options Flush (step beh key options (Write v2) st)) =
          snd (notify beh (props st) key options (toReactive v2) (calls st))"
    using write_changed [OF q assms(3), of v2 options beh] by simp
  have d: "\<not> hasChanged (toReactive v2) (get_value key options st) \<longrightarrow>
        step beh key options (Write v2) st = st"
    using write_same [OF q, of v2 options beh] by blast
  have e: "vs \<noteq> [] \<longrightarrow>
        calls (writes beh key options vs st) = calls st \<and>
        Object_is (get_value key options (writes beh key options vs st)) (toReactive (last vs)) \<and>
        calls (step beh key options Flush (writes beh key options vs st)) =
          (if hasChanged (get_value key options (writes beh key options vs st))
                (get_value key options st)
           then snd (notify beh (props st) key options
                      (get_value key options (writes beh key options vs st)) (calls st))
           else calls st)"
  proof
    assume ne: "vs \<noteq> []"
    from q obtain r where r: "proxy st = Some r" by (rule settled_ref)
    have e1: "calls (writes beh key options vs st) = calls st"
      using writes_frame [OF r, of beh key options vs] by simp
    have rw: "reachable beh ps key options (writes beh key options ws st)" for ws
      using assms(1) by (rule reachable_writes)
    have cw: "consistent key (queue (writes beh key options ws st)) (writes beh key options ws st)"
      for ws using rw assms(2) by (rule reachable_buffered)
    from ne obtain ws w where vs: "vs = ws @ [w]" by (cases vs rule: rev_cases) auto
    have e2: "Object_is (get_value key options (writes beh key options vs st))
                (toReactive (last vs))"
      unfolding vs writes_snoc using write_last [OF cw [of ws], of options beh w] by simp
    have e3: "calls (step beh key options Flush (writes beh key options vs st)) =
          (if hasChanged (get_value key options (writes beh key options vs st))
                (get_value key options st)
           then snd (notify beh (props st) key options
                      (get_value key options (writes beh key options vs st)) (calls st))
           else calls st)"
      using writes_flush(1) [OF q assms(3) cw [of vs]] by simp
    from e1 e2 e3 show "calls (writes beh key options vs st) = calls st \<and>
        Object_is (get_value key options (writes beh key options vs st)) (toReactive (last vs)) \<and>
        calls (step beh key options Flush (writes beh key options vs st)) =
          (if hasChanged (get_value key options (writes beh key options vs st))
                (get_value key options st)
           then snd (notify beh (props st) key options
                      (get_value key options (writes beh key options vs st)) (calls st))
           else calls st)"
      by blast
  qed
  have f: "emit options = Some e \<longrightarrow>
        snd (notify beh ps' key options x cs) =
          cs @ [(e, [Prim (Str (event key options)), x])]"
    by (simp add: notify_emit)
  from a b c d e f show ?thesis by blast
qed

theorem buffered_mode_amended_witness:
  "get_value ''modelValue''
        \<lparr>passive = None, eventName = None, defaultValue = Prim (Num 5), emit = Some 7\<rparr>
        (fold (step (\<lambda>f args. Inr (Prim Undefined)) ''modelValue''
                 \<lparr>passive = None, eventName = None, defaultValue = Prim (Num 5), emit = Some 7\<rparr>)
           [SetProp ''modelValue'' (Prim (Num 3)), Flush]
           (useVModel ((\<lambda>k. Prim Undefined)(''modelValue'' := Prim (Num 1))) ''modelValue''
              \<lparr>passive = None, eventName = None, defaultValue = Prim (Num 5), emit = Some 7\<rparr>))
     = Prim (Num 3) \<and>
   calls (fold (step (\<lambda>f args. Inr (Prim Undefined)) ''modelValue''
                 \<lparr>passive = None, eventName = None, defaultValue = Prim (Num 5), emit = Some 7\<rparr>)
           [SetProp ''modelValue'' (Prim (Num 3)), Flush]
           (useVModel ((\<lambda>k. Prim Undefined)(''modelValue'' := Prim (Num 1))) ''modelValue''
              \<lparr>passive = None, eventName = None, defaultValue = Prim (Num 5), emit = Some 7\<rparr>))
     = [(7, [Prim (Str ''onUpdate:modelValue''), Prim (Num 3)])] \<and>
   calls (fold (step (\<lambda>f args. Inr (Prim Undefined)) ''modelValue''
                 \<lparr>passive = None, eventName = None, defaultValue = Prim (Num 5), emit = Some 7\<rparr>)
           [Write (Prim (Num 4))]
           (useVModel ((\<lambda>k. Prim Undefined)(''modelValue'' := Prim (Num 1))) ''modelValue''
              \<lparr>passive = None, eventName = None, defaultValue = Prim (Num 5), emit = Some 7\<rparr>))
     = [] \<and>
   calls (fold (step (\<lambda>f args. Inr (Prim Undefined)) ''modelValue''
                 \<lparr>passive = None, eventName = None, defaultValue = Prim (Num 5), emit = Some 7\<rparr>)
           [Write (Prim (Num 4)), Flush]
           (useVModel ((\<lambda>k. Prim Undefined)(''modelValue'' := Prim (Num 1))) ''modelValue''
              \<lparr>passive = None, eventName = None, defaultValue = Prim (Num 5), emit = Some 7\<rparr>))
     = [(7, [Prim (Str ''onUpdate:modelValue''), Prim (Num 4)])] \<and>
   fold (step (\<lambda>f args. Inr (Prim Undefined)) ''modelValue''
                 \<lparr>passive = None, eventName = None, defaultValue = Prim (Num 5), emit = Some 7\<rparr>)
           [Write (Prim (Num 1))]
           (useVModel ((\<lambda>k. Prim Undefined)(''modelValue'' := Prim (Num 1))) ''modelValue''
              \<lparr>passive = None, eventName = None, defaultValue = Prim (Num 5), emit = Some 7\<rparr>)
     = useVModel ((\<lambda>k. Prim Undefined)(''modelValue'' := Prim (Num 1))) ''modelValue''
              \<lparr>passive = None, eventName = None, defaultValue = Prim (Num 5), emit = Some 7\<rparr> \<and>
   calls (fold (step (\<lambda>f args. Inr (Prim Undefined)) ''modelValue''
                 \<lparr>passive = None, eventName = None, defaultValue = Prim (Num 5), emit = Some 7\<rparr>)
           [Write (Prim (Num 2)), Write (Prim (Num 3)), Flush]
           (useVModel ((\<lambda>k. Prim Undefined)(''modelValue'' := Prim (Num 1))) ''modelValue''
              \<lparr>passive = None, eventName = None, defaultValue = Prim (Num 5), emit = Some 7\<rparr>))
     = [(7, [Prim (Str ''onUpdate:modelValue''), Prim (Num 3)])] \<and>
   calls (fold (step (\<lambda>f args. Inr (Prim Undefined)) ''modelValue''
                 \<lparr>passive = None, eventName = None, defaultValue = Prim (Num 5), emit = Some 7\<rparr>)
           [SetProp ''modelValue'' (Arr 4 [Prim (Num 8)]), Flush]
           (useVModel ((\<lambda>k. Prim Undefined)(''modelValue'' := Prim (Num 1))) ''modelValue''
              \<lparr>passive = None, eventName = None, defaultValue = Prim (Num 5), emit = Some 7\<rparr>))
     = [(7, [Prim (Str ''onUpdate:modelValue''), Reactive 4 [Prim (Num 8)]])]"
proof -
  let ?beh = "(\<lambda>f args. Inr (Prim Undefined)) :: behaviour"
  let ?o = "\<lparr>passive = None, eventName = None, defaultValue = Prim (Num 5), emit = Some 7\<rparr>"
  let ?p = "(\<lambda>k. Prim Undefined)(''modelValue'' := Prim (Num 1))"
  let ?st = "useVModel ?p ''modelValue'' ?o"
  have pas: "is_passive ?o" by (simp add: is_passive_def)
  have q0: "queue ?st = []" by (simp add: useVModel_def)
  have st: "props ?st = ?p" "get_value ''modelValue'' ?o ?st = Prim (Num 1)" "calls ?st = []"
    by (simp_all add: useVModel_def is_passive_def get_value_def getValue_def nullish_def)
  have w: "get_value ''modelValue'' ?o
             (writes ?beh ''modelValue'' ?o [Prim (Num 2), Prim (Num 3)] ?st) = Prim (Num 3)"
    by (simp add: writes_def useVModel_def is_passive_def get_value_def getValue_def nullish_def
          set_value_def set_ref_def hasChanged_def Let_def)
  note t1 = buffered_mode_amended [of ?beh ?p "''modelValue''" ?o ?st "Prim (Num 3)" "Prim (Num 4)"
      "[Prim (Num 2), Prim (Num 3)]" 7 "?p(''modelValue'' := Prim (Num 3))" "Prim (Num 3)" "[]",
      OF reachable.created pas q0]
  note t2 = buffered_mode_amended [of ?beh ?p "''modelValue''" ?o ?st "Prim (Num 3)" "Prim (Num 1)"
      "[Prim (Num 2), Prim (Num 3)]" 7 ?p "Prim (Num 4)" "[]", OF reachable.created pas q0]
  note t3 = buffered_mode_amended [of ?beh ?p "''modelValue''" ?o ?st "Prim (Num 3)" "Prim (Num 1)"
      "[Prim (Num 2), Prim (Num 3)]" 7 ?p "Prim (Num 3)" "[]", OF reachable.created pas q0]
  have a: "get_value ''modelValue'' ?o
             (fold (step ?beh ''modelValue'' ?o) [SetProp ''modelValue'' (Prim (Num 3)), Flush] ?st)
           = Prim (Num 3)"
    and b: "calls (fold (step ?beh ''modelValue'' ?o)
                     [SetProp ''modelValue'' (Prim (Num 3)), Flush] ?st)
              = [(7, [Prim (Str ''onUpdate:modelValue''), Prim (Num 3)])]"
  proof -
    have A: "hasChanged (Prim (Num 3)) (props ?st ''modelValue'') \<and>
       hasChanged (toReactive (if nullish (Prim (Num 3)) then defaultValue ?o else Prim (Num 3)))
         (get_value ''modelValue'' ?o ?st)"
      by (simp add: st hasChanged_def nullish_def)
    from t1 A have R: "get_value ''modelValue'' ?o
            (step ?beh ''modelValue'' ?o Flush
               (step ?beh ''modelValue'' ?o (SetProp ''modelValue'' (Prim (Num 3))) ?st)) =
          toReactive (if nullish (Prim (Num 3)) then defaultValue ?o else Prim (Num 3))"
      "calls (step ?beh ''modelValue'' ?o Flush
               (step ?beh ''modelValue'' ?o (SetProp ''modelValue'' (Prim (Num 3))) ?st)) =
          snd (notify ?beh ((props ?st)(''modelValue'' := Prim (Num 3))) ''modelValue'' ?o
                 (toReactive (if nullish (Prim (Num 3)) then defaultValue ?o else Prim (Num 3)))
                 (calls ?st))"
      by blast+
    from t1 have N: "snd (notify ?beh (?p(''modelValue'' := Prim (Num 3))) ''modelValue'' ?o
                       (Prim (Num 3)) []) =
                     [] @ [(7, [Prim (Str (event ''modelValue'' ?o)), Prim (Num 3)])]"
      by simp
    from R(1) show "get_value ''modelValue'' ?o
             (fold (step ?beh ''modelValue'' ?o) [SetProp ''modelValue'' (Prim (Num 3)), Flush] ?st)
           = Prim (Num 3)"
      by (simp add: nullish_def)
    from R(2) N show "calls (fold (step ?beh ''modelValue'' ?o)
                     [SetProp ''modelValue'' (Prim (Num 3)), Flush] ?st)
              = [(7, [Prim (Str ''onUpdate:modelValue''), Prim (Num 3)])]"
      by (simp add: nullish_def st event_def)
  qed
  have c: "calls (fold (step ?beh ''modelValue'' ?o) [Write (Prim (Num 4))] ?st) = []"
    and d: "calls (fold (step ?beh ''modelValue'' ?o) [Write (Prim (Num 4)), Flush] ?st)
              = [(7, [Prim (Str ''onUpdate:modelValue''), Prim (Num 4)])]"
    using t1 t2 st by (simp_all add: hasChanged_def nullish_def event_def)
  have e: "fold (step ?beh ''modelValue'' ?o) [Write (Prim (Num 1))] ?st = ?st"
    using t2 st by (simp add: hasChanged_def)
  have f: "calls (fold (step ?beh ''modelValue'' ?o)
                    [Write (Prim (Num 2)), Write (Prim (Num 3)), Flush] ?st)
              = [(7, [Prim (Str ''onUpdate:modelValue''), Prim (Num 3)])]"
  proof -
    have "calls (step ?beh ''modelValue'' ?o Flush
                   (writes ?beh ''modelValue'' ?o [Prim (Num 2), Prim (Num 3)] ?st))
            = [(7, [Prim (Str ''onUpdate:modelValue''), Prim (Num 3)])]"
      using t3 st w by (simp add: hasChanged_def event_def)
    then show ?thesis by (simp add: writes_def)
  qed
  note t4 = buffered_mode_amended [of ?beh ?p "''modelValue''" ?o ?st "Arr 4 [Prim (Num 8)]"
      "Prim (Num 1)" "[Prim (Num 2), Prim (Num 3)]" 7
      "?p(''modelValue'' := Arr 4 [Prim (Num 8)])" "Reactive 4 [Prim (Num 8)]" "[]",
      OF reachable.created pas q0]
  have g: "calls (fold (step ?beh ''modelValue'' ?o)
                    [SetProp ''modelValue'' (Arr 4 [Prim (Num 8)]), Flush] ?st)
              = [(7, [Prim (Str ''onUpdate:modelValue''), Reactive 4 [Prim (Num 8)]])]"
  proof -
    have A: "hasChanged (Arr 4 [Prim (Num 8)]) (props ?st ''modelValue'') \<and>
       hasChanged (toReactive (if nullish (Arr 4 [Prim (Num 8)]) then defaultValue ?o
                               else Arr 4 [Prim (Num 8)]))
         (get_value ''modelValue'' ?o ?st)"
      by (simp add: st hasChanged_def nullish_def)
    from t4 A have R: "calls (step ?beh ''modelValue'' ?o Flush
               (step ?beh ''modelValue'' ?o (SetProp ''modelValue'' (Arr 4 [Prim (Num 8)])) ?st)) =
          snd (notify ?beh ((props ?st)(''modelValue'' := Arr 4 [Prim (Num 8)])) ''modelValue'' ?o
                 (toReactive (if nullish (Arr 4 [Prim (Num 8)]) then defaultValue ?o
                              else Arr 4 [Prim (Num 8)]))
                 (calls ?st))"
      by blast
    from t4 have N: "snd (notify ?beh (?p(''modelValue'' := Arr 4 [Prim (Num 8)])) ''modelValue'' ?o
                       (Reactive 4 [Prim (Num 8)]) []) =
                     [] @ [(7, [Prim (Str (event ''modelValue'' ?o)), Reactive 4 [Prim (Num 8)]])]"
      by simp
    from R N show ?thesis by (simp add: nullish_def st event_def)
  qed
  from a b c d e f g show ?thesis by simp
qed

text \<open>
  Claim C6 as written fails. With \<open>props.modelValue = 1\<close> and \<open>defaultValue = 5\<close>: a local
  write of \<open>2\<close> notifies once, at the flush; when the owner then changes the source
  property from \<open>1\<close> to \<open>2\<close>, the cell already holds \<open>2\<close> and the next flush makes no
  further notification. When the source property changes to \<open>null\<close>, the cell becomes
  \<open>5\<close>, not \<open>null\<close>. A local write of the value the cell already holds makes no
  notification. A local write of \<open>2\<close> followed, before the flush, by a local write of
  \<open>3\<close> makes one notification, carrying \<open>3\<close>, and none carrying \<open>2\<close>.
\<close>

theorem buffered_mode_counterexample:
  "calls (fold (step (\<lambda>f args. Inr (Prim Undefined)) ''modelValue''
                 \<lparr>passive = None, eventName = None, defaultValue = Prim (Num 5), emit = Some 7\<rparr>)
           [Write (Prim (Num 2)), Flush]
           (useVModel ((\<lambda>k. Prim Undefined)(''modelValue'' := Prim (Num 1))) ''modelValue''
              \<lparr>passive = None, eventName = None, defaultValue = Prim (Num 5), emit = Some 7\<rparr>))
     = [(7, [Prim (Str ''onUpdate:modelValue''), Prim (Num 2)])] \<and>
   props (fold (step (\<lambda>f args. Inr (Prim Undefined)) ''modelValue''
                 \<lparr>passive = None, eventName = None, defaultValue = Prim (Num 5), emit = Some 7\<rparr>)
           [Write (Prim (Num 2)), Flush]
           (useVModel ((\<lambda>k. Prim Undefined)(''modelValue'' := Prim (Num 1))) ''modelValue''
              \<lparr>passive = None, eventName = None, defaultValue = Prim (Num 5), emit = Some 7\<rparr>))
      ''modelValue'' = Prim (Num 1) \<and>
   props (fold (step (\<lambda>f args. Inr (Prim Undefined)) ''modelValue''
                 \<lparr>passive = None, eventName = None, defaultValue = Prim (Num 5), emit = Some 7\<rparr>)
           [Write (Prim (Num 2)), Flush, SetProp ''modelValue'' (Prim (Num 2)), Flush]
           (useVModel ((\<lambda>k. Prim Undefined)(''modelValue'' := Prim (Num 1))) ''modelValue''
              \<lparr>passive = None, eventName = None, defaultValue = Prim (Num 5), emit = Some 7\<rparr>))
      ''modelValue'' = Prim (Num 2) \<and>
   calls (fold (step (\<lambda>f args. Inr (Prim Undefined)) ''modelValue''
                 \<lparr>passive = None, eventName = None, defaultValue = Prim (Num 5), emit = Some 7\<rparr>)
           [Write (Prim (Num 2)), Flush, SetProp ''modelValue'' (Prim (Num 2)), Flush]
           (useVModel ((\<lambda>k. Prim Undefined)(''modelValue'' := Prim (Num 1))) ''modelValue''
              \<lparr>passive = None, eventName = None, defaultValue = Prim (Num 5), emit = Some 7\<rparr>))
     = [(7, [Prim (Str ''onUpdate:modelValue''), Prim (Num 2)])] \<and>
   get_value ''modelValue''
        \<lparr>passive = None, eventName = None, defaultValue = Prim (Num 5), emit = Some 7\<rparr>
        (fold (step (\<lambda>f args. Inr (Prim Undefined)) ''modelValue''
                 \<lparr>passive = None, eventName = None, defaultValue = Prim (Num 5), emit = Some 7\<rparr>)
           [SetProp ''modelValue'' (Prim Null), Flush]
           (useVModel ((\<lambda>k. Prim Undefined)(''modelValue'' := Prim (Num 1))) ''modelValue''
              \<lparr>passive = None, eventName = None, defaultValue = Prim (Num 5), emit = Some 7\<rparr>))
     = Prim (Num 5) \<and>
   calls (fold (step (\<lambda>f args. Inr (Prim Undefined)) ''modelValue''
                 \<lparr>passive = None, eventName = None, defaultValue = Prim (Num 5), emit = Some 7\<rparr>)
           [Write (Prim (Num 1)), Flush]
           (useVModel ((\<lambda>k. Prim Undefined)(''modelValue'' := Prim (Num 1))) ''modelValue''
              \<lparr>passive = None, eventName = None, defaultValue = Prim (Num 5), emit = Some 7\<rparr>))
     = [] \<and>
   calls (fold (step (\<lambda>f args. Inr (Prim Undefined)) ''modelValue''
                 \<lparr>passive = None, eventName = None, defaultValue = Prim (Num 5), emit = Some 7\<rparr>)
           [Write (Prim (Num 2)), Write (Prim (Num 3)), Flush]
           (useVModel ((\<lambda>k. Prim Undefined)(''modelValue'' := Prim (Num 1))) ''modelValue''
              \<lparr>passive = None, eventName = None, defaultValue = Prim (Num 5), emit = Some 7\<rparr>))
     = [(7, [Prim (Str ''onUpdate:modelValue''), Prim (Num 3)])]"
  by (simp add: vm_eval)

text \<open>
  Claim C2, amended. When \<open>options.eventName\<close> is not supplied, the event name is the
  string \<open>onUpdate:\<close> followed by the key. Every call of a supplied \<open>emit\<close> that a
  binding makes, in either mode, has that name as its first argument. A write in eager
  mode, and in buffered mode the flush after a write that changes the cell, call the
  supplied \<open>emit\<close> with that name, or, when no \<open>emit\<close> was supplied, call the function
  found at the property of that name.
\<close>

theorem event_name_default:
  assumes "eventName options = None" and "reachable beh ps key options st"
  shows "event key options = ''onUpdate:'' @ key \<and>
     (emit options = Some e \<longrightarrow>
        list_all (\<lambda>c. \<exists>x. c = (e, [Prim (Str (''onUpdate:'' @ key)), x])) (calls st)) \<and>
     (emit options = Some e \<and> \<not> is_passive options \<longrightarrow>
        calls (step beh key options (Write v) st) =
          calls st @ [(e, [Prim (Str (''onUpdate:'' @ key)), v])]) \<and>
     (emit options = Some e \<and> is_passive options \<and> queue st = [] \<and>
      hasChanged (toReactive v) (get_value key options st) \<longrightarrow>
        calls (step beh key options Flush (step beh key options (Write v) st)) =
          calls st @ [(e, [Prim (Str (''onUpdate:'' @ key)), toReactive v])]) \<and>
     (emit options = None \<and> props st (''onUpdate:'' @ key) = Fun f \<and> \<not> is_passive options \<longrightarrow>
        calls (step beh key options (Write v) st) = calls st @ [(f, [v])]) \<and>
     (emit options = None \<and> props st (''onUpdate:'' @ key) = Fun f \<and> is_passive options \<and>
      queue st = [] \<and> hasChanged (toReactive v) (get_value key options st) \<longrightarrow>
        calls (step beh key options Flush (step beh key options (Write v) st)) =
          calls st @ [(f, [toReactive v])])"
proof -
  have ev: "event key options = ''onUpdate:'' @ key"
    using assms(1) by (simp add: event_def)
  have inv: "emit options = Some e \<longrightarrow>
        list_all (\<lambda>c. \<exists>x. c = (e, [Prim (Str (''onUpdate:'' @ key)), x])) (calls st)"
    using reachable_emit_all [OF _ assms(2), of e] ev by simp
  have eager: "\<not> is_passive options \<Longrightarrow>
     calls (step beh key options (Write v) st) =
       snd (notify beh (props st) key options v (calls st))"
  proof -
    assume "\<not> is_passive options"
    with assms(2) have "proxy st = None" by (rule reachable_eager)
    then show ?thesis by (simp add: eager_set_value)
  qed
  have buffered: "is_passive options \<Longrightarrow> queue st = [] \<Longrightarrow>
     hasChanged (toReactive v) (get_value key options st) \<Longrightarrow>
     calls (step beh key options Flush (step beh key options (Write v) st)) =
       snd (notify beh (props st) key options (toReactive v) (calls st))"
  proof -
    assume p: "is_passive options" and q: "queue st = []"
      and ch: "hasChanged (toReactive v) (get_value key options st)"
    from assms(2) p have "consistent key (queue st) st" by (rule reachable_buffered)
    with q have "consistent key [] st" by simp
    from write_changed(3) [OF this q ch] show ?thesis by simp
  qed
  have a: "emit options = Some e \<and> \<not> is_passive options \<longrightarrow>
        calls (step beh key options (Write v) st) =
          calls st @ [(e, [Prim (Str (''onUpdate:'' @ key)), v])]"
    using eager notify_emit [of options e beh "props st" key v "calls st"] ev by auto
  have b: "emit options = Some e \<and> is_passive options \<and> queue st = [] \<and>
      hasChanged (toReactive v) (get_value key options st) \<longrightarrow>
        calls (step beh key options Flush (step beh key options (Write v) st)) =
          calls st @ [(e, [Prim (Str (''onUpdate:'' @ key)), toReactive v])]"
    using buffered notify_emit [of options e beh "props st" key "toReactive v" "calls st"] ev
    by auto
  have c: "emit options = None \<and> props st (''onUpdate:'' @ key) = Fun f \<and>
      \<not> is_passive options \<longrightarrow>
        calls (step beh key options (Write v) st) = calls st @ [(f, [v])]"
    using eager notify_fun [of options "props st" key f beh v "calls st"] ev by auto
  have d: "emit options = None \<and> props st (''onUpdate:'' @ key) = Fun f \<and> is_passive options \<and>
      queue st = [] \<and> hasChanged (toReactive v) (get_value key options st) \<longrightarrow>
        calls (step beh key options Flush (step beh key options (Write v) st)) =
          calls st @ [(f, [toReactive v])]"
    using buffered notify_fun [of options "props st" key f beh "toReactive v" "calls st"] ev
    by auto
  from ev inv a b c d show ?thesis by blast
qed

theorem event_name_default_witness:
  "event ''modelValue''
     \<lparr>passive = None, eventName = None, defaultValue = Prim Undefined, emit = Some 7\<rparr>
     = ''onUpdate:modelValue'' \<and>
   calls (fold (step (\<lambda>f args. Inr (Prim Undefined)) ''modelValue''
                 \<lparr>passive = None, eventName = None, defaultValue = Prim Undefined, emit = Some 7\<rparr>)
           [Write (Prim (Num 2)), Flush]
           (useVModel ((\<lambda>k. Prim Undefined)(''modelValue'' := Prim (Num 1))) ''modelValue''
              \<lparr>passive = None, eventName = None, defaultValue = Prim Undefined, emit = Some 7\<rparr>))
     = [(7, [Prim (Str ''onUpdate:modelValue''), Prim (Num 2)])] \<and>
   calls (step (\<lambda>f args. Inr (Prim Undefined)) ''modelValue''
            \<lparr>passive = Some False, eventName = None, defaultValue = Prim Undefined, emit = None\<rparr>
            (Write (Prim (Num 2)))
            (useVModel ((\<lambda>k. Prim Undefined)(''modelValue'' := Prim (Num 1),
                          ''onUpdate:modelValue'' := Fun 3)) ''modelValue''
               \<lparr>passive = Some False, eventName = None, defaultValue = Prim Undefined, emit = None\<rparr>))
     = [(3, [Prim (Num 2)])] \<and>
   list_all (\<lambda>c. \<exists>x. c = (7, [Prim (Str ''onUpdate:modelValue''), x]))
     (calls (fold (step (\<lambda>f args. Inr (Prim Undefined)) ''modelValue''
                 \<lparr>passive = None, eventName = None, defaultValue = Prim Undefined, emit = Some 7\<rparr>)
           [Write (Prim (Num 2)), SetProp ''modelValue'' (Prim (Num 3)), Flush]
           (useVModel ((\<lambda>k. Prim Undefined)(''modelValue'' := Prim (Num 1))) ''modelValue''
              \<lparr>passive = None, eventName = None, defaultValue = Prim Undefined, emit = Some 7\<rparr>)))"
proof -
  let ?beh = "(\<lambda>f args. Inr (Prim Undefined)) :: behaviour"
  let ?ob = "\<lparr>passive = None, eventName = None, defaultValue = Prim Undefined, emit = Some 7\<rparr>"
  let ?oe = "\<lparr>passive = Some False, eventName = None, defaultValue = Prim Undefined, emit = None\<rparr>"
  let ?p = "(\<lambda>k. Prim Undefined)(''modelValue'' := Prim (Num 1))"
  let ?q = "(\<lambda>k. Prim Undefined)(''modelValue'' := Prim (Num 1), ''onUpdate:modelValue'' := Fun 3)"
  let ?s3 = "fold (step ?beh ''modelValue'' ?ob)
           [Write (Prim (Num 2)), SetProp ''modelValue'' (Prim (Num 3)), Flush]
           (useVModel ?p ''modelValue'' ?ob)"
  have n: "eventName ?ob = None" "eventName ?oe = None" by simp_all
  have r3: "reachable ?beh ?p ''modelValue'' ?ob ?s3"
    using reachable.stepped [OF reachable.stepped [OF reachable.stepped [OF reachable.created]],
        of ?beh ?p "''modelValue''" ?ob Flush "SetProp ''modelValue'' (Prim (Num 3))"
           "Write (Prim (Num 2))"]
    by simp
  note t1 = event_name_default [of ?ob ?beh ?p "''modelValue''" "useVModel ?p ''modelValue'' ?ob"
      7 "Prim (Num 2)" 0, OF n(1) reachable.created]
  note t2 = event_name_default [of ?oe ?beh ?q "''modelValue''" "useVModel ?q ''modelValue'' ?oe"
      7 "Prim (Num 2)" 3, OF n(2) reachable.created]
  note t3 = event_name_default [of ?ob ?beh ?p "''modelValue''" ?s3 7 "Prim (Num 2)" 0, OF n(1) r3]
  have a: "event ''modelValue'' ?ob = ''onUpdate:modelValue''"
    using t1 by simp
  have b: "calls (fold (step ?beh ''modelValue'' ?ob) [Write (Prim (Num 2)), Flush]
                    (useVModel ?p ''modelValue'' ?ob))
             = [(7, [Prim (Str ''onUpdate:modelValue''), Prim (Num 2)])]"
    using t1
    by (simp add: useVModel_def is_passive_def get_value_def getValue_def nullish_def hasChanged_def)
  have c: "calls (step ?beh ''modelValue'' ?oe (Write (Prim (Num 2))) (useVModel ?q ''modelValue'' ?oe))
             = [(3, [Prim (Num 2)])]"
    using t2 by (simp add: useVModel_def is_passive_def)
  have d: "list_all (\<lambda>c. \<exists>x. c = (7, [Prim (Str ''onUpdate:modelValue''), x])) (calls ?s3)"
    using t3 by simp
  from a b c d show ?thesis by simp
qed

text \<open>
  Claim C2 as written fails: for the key \<open>modelValue\<close> the event name is
  \<open>onUpdate:modelValue\<close>, not \<open>update:modelValue\<close>, and that is the name \<open>emit\<close> is called
  with.
\<close>

theorem event_name_counterexample:
  "event ''modelValue''
     \<lparr>passive = None, eventName = None, defaultValue = Prim Undefined, emit = None\<rparr>
     = ''onUpdate:modelValue'' \<and>
   event ''modelValue''
     \<lparr>passive = None, eventName = None, defaultValue = Prim Undefined, emit = None\<rparr>
     \<noteq> ''update:modelValue'' \<and>
   calls (step (\<lambda>f args. Inr (Prim Undefined)) ''modelValue''
            \<lparr>passive = Some False, eventName = None, defaultValue = Prim Undefined, emit = Some 7\<rparr>
            (Write (Prim (Num 2)))
            (useVModel ((\<lambda>k. Prim Undefined)(''modelValue'' := Prim (Num 1))) ''modelValue''
               \<lparr>passive = Some False, eventName = None, defaultValue = Prim Undefined, emit = Some 7\<rparr>))
     = [(7, [Prim (Str ''onUpdate:modelValue''), Prim (Num 2)])] \<and>
   calls (step (\<lambda>f args. Inr (Prim Undefined)) ''modelValue''
            \<lparr>passive = Some False, eventName = None, defaultValue = Prim Undefined, emit = Some 7\<rparr>
            (Write (Prim (Num 2)))
            (useVModel ((\<lambda>k. Prim Undefined)(''modelValue'' := Prim (Num 1))) ''modelValue''
               \<lparr>passive = Some False, eventName = None, defaultValue = Prim Undefined, emit = Some 7\<rparr>))
     \<noteq> [(7, [Prim (Str ''update:modelValue''), Prim (Num 2)])]"
  by (simp add: vm_eval)

end
